theory Spec2Isabelle
  imports Main
begin

section \<open>The browser page the widget runs on\<close>

text \<open>
  The widget of \<^verbatim>\<open>htz-stateful-btn\<close> is written against the DOM. The part of the DOM
  it touches is modelled as a record: every node is a number, \<open>kids\<close> is a node's
  \<^verbatim>\<open>childNodes\<close>, \<open>parent\<close> its \<^verbatim>\<open>parentNode\<close>, \<open>attrs\<close> its attributes,
  \<open>classes\<close> the token list behind its \<^verbatim>\<open>classList\<close>, \<open>fresh\<close> the next node
  \<^verbatim>\<open>document.createElement\<close> hands out, and \<open>ids\<close> the index behind
  \<^verbatim>\<open>document.getElementById\<close>. The nodes handed to the widget are taken to be HTML
  elements of an HTML document, so tag and attribute names are lower-cased. The DOM
  keeps an element's token list equal to its parsed \<^verbatim>\<open>class\<close> attribute: writing
  the attribute parses it into \<open>classes\<close>, and changing the list writes the
  attribute. The \<^verbatim>\<open>id\<close> attribute is not tied to \<open>ids\<close>, which stands for whatever
  the document answers. A string is a list of characters with code points below 256
  (ASCII and the Latin-1 supplement).

  Events go through the imported \<^verbatim>\<open>htz-dispatch-event\<close>, which is not part of the
  repository: \<open>events\<close> is the log of what was dispatched (target, event name, the
  \<^verbatim>\<open>isInState\<close> flag of the payload), oldest first, and \<open>vetoed\<close> says whether some
  observer of the page calls \<^verbatim>\<open>preventDefault\<close> on such an event. Observers only
  observe: they do not call back into the widget.
\<close>

type_synonym node = nat

datatype jserror =
  TypeError | SyntaxError | InvalidCharacterError | HierarchyRequestError | NotFoundError

record page =
  kids :: "node \<Rightarrow> node list"
  parent :: "node \<Rightarrow> node option"
  tag :: "node \<Rightarrow> string"
  attrs :: "node \<Rightarrow> (string \<rightharpoonup> string)"
  classes :: "node \<Rightarrow> string list"
  fresh :: node
  ids :: "string \<rightharpoonup> node"
  vetoed :: "node \<Rightarrow> string \<Rightarrow> bool \<Rightarrow> bool"
  events :: "(node \<times> string \<times> bool) list"

text \<open>
  Names. \<^verbatim>\<open>createElement\<close> and \<^verbatim>\<open>setAttribute\<close> throw an
  \<^verbatim>\<open>InvalidCharacterError\<close> unless the name matches the \<^verbatim>\<open>Name\<close> production of
  XML: a letter, \<^verbatim>\<open>:\<close>, \<^verbatim>\<open>_\<close> or one of the code points C0 to D6, D8 to F6 and
  F8 to FF, followed by any number of those, digits, \<^verbatim>\<open>-\<close>, \<^verbatim>\<open>.\<close> and the code
  point B7. \<open>ascii_lower\<close> is the lower-casing the DOM applies to the names of HTML
  elements and of their attributes.
\<close>

definition ascii_whitespace :: "char \<Rightarrow> bool" where
  "ascii_whitespace c =
     (c = CHR 0x09 \<or> c = CHR 0x0A \<or> c = CHR 0x0C \<or> c = CHR 0x0D \<or> c = CHR '' '')"

definition name_start_char :: "char \<Rightarrow> bool" where
  "name_start_char c =
     (c \<in> set ''abcdefghijklmnopqrstuvwxyz'' \<or> c \<in> set ''ABCDEFGHIJKLMNOPQRSTUVWXYZ'' \<or>
      c \<in> set '':_'' \<or>
      (0xC0 \<le> (of_char c :: nat) \<and> (of_char c :: nat) \<le> 0xD6) \<or>
      (0xD8 \<le> (of_char c :: nat) \<and> (of_char c :: nat) \<le> 0xF6) \<or>
      0xF8 \<le> (of_char c :: nat))"

definition name_char :: "char \<Rightarrow> bool" where
  "name_char c = (name_start_char c \<or> c \<in> set ''-.0123456789'' \<or> c = CHR 0xB7)"

definition valid_name :: "string \<Rightarrow> bool" where
  "valid_name s = (case s of [] \<Rightarrow> False | c # cs \<Rightarrow> name_start_char c \<and> list_all name_char cs)"

definition ascii_lower :: "char \<Rightarrow> char" where
  "ascii_lower c =
     (case map_of (zip ''ABCDEFGHIJKLMNOPQRSTUVWXYZ'' ''abcdefghijklmnopqrstuvwxyz'') c of
        None \<Rightarrow> c
      | Some l \<Rightarrow> l)"

definition lower_name :: "string \<Rightarrow> string" where
  "lower_name s = map ascii_lower s"

text \<open>
  The token list of a \<^verbatim>\<open>class\<close> attribute: its value split at ASCII whitespace,
  without empty pieces and without repetitions (the first occurrence stays).
  \<open>serialize_tokens\<close> is the way back, the tokens joined by single spaces.
\<close>

fun split_whitespace :: "string \<Rightarrow> string list" where
  "split_whitespace [] = [[]]"
| "split_whitespace (c # cs) =
     (if ascii_whitespace c then [] # split_whitespace cs
      else (case split_whitespace cs of [] \<Rightarrow> [[c]] | w # ws \<Rightarrow> (c # w) # ws))"

definition parse_tokens :: "string \<Rightarrow> string list" where
  "parse_tokens s = rev (remdups (rev (filter (\<lambda>t. t \<noteq> []) (split_whitespace s))))"

fun serialize_tokens :: "string list \<Rightarrow> string" where
  "serialize_tokens [] = []"
| "serialize_tokens [t] = t"
| "serialize_tokens (t # ts) = t @ '' '' @ serialize_tokens ts"

text \<open>
  \<^verbatim>\<open>document.createElement(tag)\<close>: a new, empty, detached element, or an
  \<^verbatim>\<open>InvalidCharacterError\<close>.
\<close>

definition createElement :: "string \<Rightarrow> page \<Rightarrow> (jserror + node) \<times> page" where
  "createElement t pg =
     (if \<not> valid_name t then (Inl InvalidCharacterError, pg)
      else
        (Inr (fresh pg),
         pg\<lparr>kids := (kids pg)(fresh pg := []),
            parent := (parent pg)(fresh pg := None),
            tag := (tag pg)(fresh pg := lower_name t),
            attrs := (attrs pg)(fresh pg := Map.empty),
            classes := (classes pg)(fresh pg := []),
            fresh := Suc (fresh pg)\<rparr>))"

definition getElementById :: "page \<Rightarrow> string \<Rightarrow> node option" where
  "getElementById pg s = ids pg s"

definition getAttribute :: "page \<Rightarrow> node \<Rightarrow> string \<Rightarrow> string option" where
  "getAttribute pg n k = attrs pg n (lower_name k)"

definition setAttribute :: "node \<Rightarrow> string \<Rightarrow> string \<Rightarrow> page \<Rightarrow> (jserror + unit) \<times> page" where
  "setAttribute n k v pg =
     (if \<not> valid_name k then (Inl InvalidCharacterError, pg)
      else
        let pg1 = pg\<lparr>attrs := (attrs pg)(n := (attrs pg n)(lower_name k \<mapsto> v))\<rparr>
        in (Inr (),
            if lower_name k = ''class'' then pg1\<lparr>classes := (classes pg1)(n := parse_tokens v)\<rparr>
            else pg1))"

definition removeAttribute :: "node \<Rightarrow> string \<Rightarrow> page \<Rightarrow> page" where
  "removeAttribute n k pg =
     (let pg1 = pg\<lparr>attrs := (attrs pg)(n := (attrs pg n)(lower_name k := None))\<rparr>
      in if lower_name k = ''class'' then pg1\<lparr>classes := (classes pg1)(n := [])\<rparr> else pg1)"

definition firstChild :: "page \<Rightarrow> node \<Rightarrow> node option" where
  "firstChild pg n = (case kids pg n of [] \<Rightarrow> None | c # _ \<Rightarrow> Some c)"

text \<open>
  \<^verbatim>\<open>classList.add(...tokens)\<close> and \<^verbatim>\<open>classList.remove(...tokens)\<close>: the DOM first
  validates every token (an empty token is a \<^verbatim>\<open>SyntaxError\<close>, a token with ASCII
  whitespace an \<^verbatim>\<open>InvalidCharacterError\<close>), then changes the ordered token set, and
  then writes the set back to the \<^verbatim>\<open>class\<close> attribute (\<open>update_class\<close>), except
  that an element without the attribute and with an empty set stays without it.
\<close>

fun validate_tokens :: "string list \<Rightarrow> jserror option" where
  "validate_tokens [] = None"
| "validate_tokens (t # ts) =
     (if t = [] then Some SyntaxError
      else if \<exists>c \<in> set t. ascii_whitespace c then Some InvalidCharacterError
      else validate_tokens ts)"

fun add_tokens :: "string list \<Rightarrow> string list \<Rightarrow> string list" where
  "add_tokens [] cs = cs"
| "add_tokens (t # ts) cs = add_tokens ts (if t \<in> set cs then cs else cs @ [t])"

fun remove_tokens :: "string list \<Rightarrow> string list \<Rightarrow> string list" where
  "remove_tokens [] cs = cs"
| "remove_tokens (t # ts) cs = remove_tokens ts (removeAll t cs)"

definition update_class :: "node \<Rightarrow> string list \<Rightarrow> page \<Rightarrow> page" where
  "update_class n cs pg =
     (let pg1 = pg\<lparr>classes := (classes pg)(n := cs)\<rparr>
      in if attrs pg n ''class'' = None \<and> cs = [] then pg1
         else pg1\<lparr>attrs := (attrs pg)(n := (attrs pg n)(''class'' \<mapsto> serialize_tokens cs))\<rparr>)"

definition classList_add :: "node \<Rightarrow> string list \<Rightarrow> page \<Rightarrow> (jserror + unit) \<times> page" where
  "classList_add n ts pg =
     (case validate_tokens ts of
        Some e \<Rightarrow> (Inl e, pg)
      | None \<Rightarrow> (Inr (), update_class n (add_tokens ts (classes pg n)) pg))"

definition classList_remove :: "node \<Rightarrow> string list \<Rightarrow> page \<Rightarrow> (jserror + unit) \<times> page" where
  "classList_remove n ts pg =
     (case validate_tokens ts of
        Some e \<Rightarrow> (Inl e, pg)
      | None \<Rightarrow> (Inr (), update_class n (remove_tokens ts (classes pg n)) pg))"

text \<open>
  Tree surgery. \<open>ancestors pg k n\<close> walks up from \<open>n\<close> for at most \<open>k\<close> steps; with
  \<open>k = fresh pg\<close> it reaches every inclusive ancestor of a node of a well-formed page.
  \<open>pre_insert\<close> is the DOM's "pre-insert \<open>c\<close> into \<open>p\<close> before \<open>r\<close>": it refuses a
  node that is an inclusive ancestor of the new parent (\<^verbatim>\<open>HierarchyRequestError\<close>) and
  a reference node that is not a child of the parent (\<^verbatim>\<open>NotFoundError\<close>); otherwise
  the node is taken out of its old parent and put in place.
\<close>

fun ancestors :: "page \<Rightarrow> nat \<Rightarrow> node \<Rightarrow> node list" where
  "ancestors pg 0 n = [n]"
| "ancestors pg (Suc k) n =
     n # (case parent pg n of None \<Rightarrow> [] | Some p \<Rightarrow> ancestors pg k p)"

definition detach :: "node \<Rightarrow> page \<Rightarrow> page" where
  "detach c pg =
     (case parent pg c of
        None \<Rightarrow> pg
      | Some q \<Rightarrow> pg\<lparr>kids := (kids pg)(q := remove1 c (kids pg q)),
                     parent := (parent pg)(c := None)\<rparr>)"

definition insert_before :: "node \<Rightarrow> node \<Rightarrow> node list \<Rightarrow> node list" where
  "insert_before r c ks = takeWhile (\<lambda>k. k \<noteq> r) ks @ c # dropWhile (\<lambda>k. k \<noteq> r) ks"

definition pre_insert :: "node \<Rightarrow> node \<Rightarrow> node option \<Rightarrow> page \<Rightarrow> (jserror + unit) \<times> page" where
  "pre_insert p c r pg =
     (if c \<in> set (ancestors pg (fresh pg) p) then (Inl HierarchyRequestError, pg)
      else if (case r of None \<Rightarrow> False | Some r' \<Rightarrow> parent pg r' \<noteq> Some p)
        then (Inl NotFoundError, pg)
      else if r = Some c then (Inr (), pg)
      else
        let pg1 = detach c pg;
            ks = (case r of None \<Rightarrow> kids pg1 p @ [c]
                  | Some r' \<Rightarrow> insert_before r' c (kids pg1 p))
        in (Inr (), pg1\<lparr>kids := (kids pg1)(p := ks), parent := (parent pg1)(c := Some p)\<rparr>))"

definition appendChild :: "node \<Rightarrow> node \<Rightarrow> page \<Rightarrow> (jserror + unit) \<times> page" where
  "appendChild p c pg = pre_insert p c None pg"

definition insertBefore :: "node \<Rightarrow> node \<Rightarrow> node \<Rightarrow> page \<Rightarrow> (jserror + unit) \<times> page" where
  "insertBefore p c r pg = pre_insert p c (Some r) pg"

definition removeChild :: "node \<Rightarrow> node \<Rightarrow> page \<Rightarrow> (jserror + unit) \<times> page" where
  "removeChild p c pg =
     (if parent pg c \<noteq> Some p then (Inl NotFoundError, pg) else (Inr (), detach c pg))"

text \<open>
  \<^verbatim>\<open>dispatchEvent(target, name, detail)\<close> of \<^verbatim>\<open>htz-dispatch-event\<close>: the event is
  logged, and the result is false when an observer vetoed it.
\<close>

definition dispatchEvent :: "node \<Rightarrow> string \<Rightarrow> bool \<Rightarrow> page \<Rightarrow> bool \<times> page" where
  "dispatchEvent n name detail pg =
     (\<not> vetoed pg n name detail, pg\<lparr>events := events pg @ [(n, name, detail)]\<rparr>)"

section \<open>wrap-inner.js\<close>

text \<open>
  \<^verbatim>\<open>wrapInner(parent, wrapper, attrs)\<close>. The wrapper is a tag name or an element;
  \<open>as\<close> lists the own properties of \<^verbatim>\<open>attrs\<close> in enumeration order (the empty list
  when the argument is left out), and \<open>set_attributes\<close> is the \<^verbatim>\<open>for\<close> loop over
  them, which stops at the first \<^verbatim>\<open>setAttribute\<close> that throws. The loop
  \<^verbatim>\<open>while (parent.firstChild !== wrapperElem) wrapperElem.appendChild(parent.firstChild)\<close>
  is \<open>move_into\<close>: a run that never ends is the value \<open>None\<close>, and
  \<^verbatim>\<open>appendChild(null)\<close> on an empty parent is the \<^verbatim>\<open>TypeError\<close> the DOM throws.
\<close>

datatype wrapper_spec = TagName string | Elem node

partial_function (option) move_into :: "node \<Rightarrow> node \<Rightarrow> page \<Rightarrow> ((jserror + unit) \<times> page) option" where
  "move_into par w pg =
     (case firstChild pg par of
        None \<Rightarrow> Some (Inl TypeError, pg)
      | Some c \<Rightarrow>
          if c = w then Some (Inr (), pg)
          else (case appendChild w c pg of
                  (Inl e, pg') \<Rightarrow> Some (Inl e, pg')
                | (Inr u, pg') \<Rightarrow> move_into par w pg'))"

declare move_into.simps [code]

fun set_attributes :: "node \<Rightarrow> (string \<times> string) list \<Rightarrow> page \<Rightarrow> (jserror + unit) \<times> page" where
  "set_attributes w [] pg = (Inr (), pg)"
| "set_attributes w ((k, v) # as) pg =
     (case setAttribute w k v pg of
        (Inl e, pg') \<Rightarrow> (Inl e, pg')
      | (Inr u, pg') \<Rightarrow> set_attributes w as pg')"

definition wrapInner ::
  "node \<Rightarrow> wrapper_spec \<Rightarrow> (string \<times> string) list \<Rightarrow> page \<Rightarrow> ((jserror + node \<times> node) \<times> page) option" where
  "wrapInner par spec as pg =
     (case (case spec of TagName t \<Rightarrow> createElement t pg | Elem e \<Rightarrow> (Inr e, pg)) of
        (Inl e, pg1) \<Rightarrow> Some (Inl e, pg1)
      | (Inr wrapperElem, pg1) \<Rightarrow>
          (case set_attributes wrapperElem as pg1 of
             (Inl e, pg2) \<Rightarrow> Some (Inl e, pg2)
           | (Inr u, pg2) \<Rightarrow>
               (case appendChild par wrapperElem pg2 of
                  (Inl e, pg3) \<Rightarrow> Some (Inl e, pg3)
                | (Inr u', pg3) \<Rightarrow>
                    (case move_into par wrapperElem pg3 of
                       None \<Rightarrow> None
                     | Some (Inl e, pg4) \<Rightarrow> Some (Inl e, pg4)
                     | Some (Inr u'', pg4) \<Rightarrow> Some (Inr (par, wrapperElem), pg4)))))"

section \<open>The stateful button\<close>

text \<open>
  A JavaScript value that is a string, \<^verbatim>\<open>undefined\<close> or \<^verbatim>\<open>null\<close> is a
  \<open>string option\<close> (\<open>None\<close> for both of the latter, which the widget never tells
  apart). \<open>truthy\<close> is JavaScript's truthiness, \<open>js_or\<close> its \<^verbatim>\<open>||\<close>, and
  \<open>str_split sep s\<close> is \<^verbatim>\<open>s.split(sep)\<close> for a one-character separator: the
  empty string splits into one empty piece.
\<close>

definition truthy :: "string option \<Rightarrow> bool" where
  "truthy v = (case v of None \<Rightarrow> False | Some s \<Rightarrow> s \<noteq> [])"

definition js_or :: "string option \<Rightarrow> string option \<Rightarrow> string option" where
  "js_or a b = (if truthy a then a else b)"

fun str_split :: "char \<Rightarrow> string \<Rightarrow> string list" where
  "str_split sep [] = [[]]"
| "str_split sep (c # cs) =
     (if c = sep then [] # str_split sep cs
      else (case str_split sep cs of [] \<Rightarrow> [[c]] | w # ws \<Rightarrow> (c # w) # ws))"

text \<open>
  The variables of one call of \<^verbatim>\<open>statefulBtn(btn, inStateText, inStateClass)\<close>: its
  three parameters and the five variables its closures share. The instance object's
  \<^verbatim>\<open>btn\<close> property is the parameter \<open>btn\<close>.
\<close>

record inst =
  btn :: node
  inStateText :: "string option"
  inStateClass :: "string option"
  isInState :: bool
  isInit :: bool
  a11yText :: "string option"
  inStateClassName :: "string option"
  wrapper :: "node option"

text \<open>
  The loop of \<^verbatim>\<open>destroy\<close>,
  \<^verbatim>\<open>while (wrapper.firstChild) btn.insertBefore(wrapper.firstChild, wrapper)\<close>.
\<close>

partial_function (option) unwrap :: "node \<Rightarrow> node \<Rightarrow> page \<Rightarrow> ((jserror + unit) \<times> page) option" where
  "unwrap b w pg =
     (case firstChild pg w of
        None \<Rightarrow> Some (Inr (), pg)
      | Some c \<Rightarrow>
          (case insertBefore b c w pg of
             (Inl e, pg') \<Rightarrow> Some (Inl e, pg')
           | (Inr u, pg') \<Rightarrow> unwrap b w pg'))"

declare unwrap.simps [code]

text \<open>
  Every method returns what it threw (\<open>Inl\<close>) or that it returned (\<open>Inr\<close>), with the
  variables and the page as the call left them. A method with a loop returns \<open>None\<close>
  when the loop never ends. Reading a property of an unset \<^verbatim>\<open>wrapper\<close> or calling
  \<^verbatim>\<open>split\<close> on an unset \<^verbatim>\<open>inStateClassName\<close> is a \<^verbatim>\<open>TypeError\<close>.
\<close>

definition destroy :: "inst \<Rightarrow> page \<Rightarrow> ((jserror + unit) \<times> inst \<times> page) option" where
  "destroy i pg =
     (if isInit i then
        let pg1 = removeAttribute (btn i) ''aria-live'' pg;
            pg2 = removeAttribute (btn i) ''aria-label'' pg1
        in case inStateClassName i of
             None \<Rightarrow> Some (Inl TypeError, i, pg2)
           | Some cn \<Rightarrow>
               (case classList_remove (btn i) (str_split CHR '' '' cn) pg2 of
                  (Inl e, pg3) \<Rightarrow> Some (Inl e, i, pg3)
                | (Inr u, pg3) \<Rightarrow>
                    (case wrapper i of
                       None \<Rightarrow> Some (Inl TypeError, i, pg3)
                     | Some w \<Rightarrow>
                         (case unwrap (btn i) w pg3 of
                            None \<Rightarrow> None
                          | Some (Inl e, pg4) \<Rightarrow> Some (Inl e, i, pg4)
                          | Some (Inr u', pg4) \<Rightarrow>
                              (case removeChild (btn i) w pg4 of
                                 (Inl e, pg5) \<Rightarrow> Some (Inl e, i, pg5)
                               | (Inr u'', pg5) \<Rightarrow>
                                   Some (Inr (),
                                         i\<lparr>wrapper := None, isInit := False, isInState := False\<rparr>,
                                         pg5)))))
      else Some (Inr (), i, pg))"

definition init :: "inst \<Rightarrow> page \<Rightarrow> ((jserror + unit) \<times> inst \<times> page) option" where
  "init i pg =
     (case (if isInit i then destroy i pg else Some (Inr (), i, pg)) of
        None \<Rightarrow> None
      | Some (Inl e, i1, pg1) \<Rightarrow> Some (Inl e, i1, pg1)
      | Some (Inr u, i1, pg1) \<Rightarrow>
          (case wrapInner (btn i1) (TagName ''span'') [] pg1 of
             None \<Rightarrow> None
           | Some (Inl e, pg2) \<Rightarrow> Some (Inl e, i1, pg2)
           | Some (Inr (p, w), pg2) \<Rightarrow>
               let i2 = i1\<lparr>wrapper := Some w,
                           a11yText :=
                             js_or (inStateText i1)
                               (getAttribute pg2 (btn i1) ''data-in-state-text''),
                           inStateClassName :=
                             js_or (inStateClass i1)
                               (getAttribute pg2 (btn i1) ''data-in-state-class'')\<rparr>
               in case setAttribute (btn i2) ''aria-live'' ''polite'' pg2 of
                    (Inl e, pg3) \<Rightarrow> Some (Inl e, i2, pg3)
                  | (Inr u', pg3) \<Rightarrow> Some (Inr (), i2\<lparr>isInit := True\<rparr>, pg3)))"

definition enableState :: "inst \<Rightarrow> page \<Rightarrow> (jserror + unit) \<times> inst \<times> page" where
  "enableState i pg =
     (if isInit i then
        let (allowed, pg1) = dispatchEvent (btn i) ''stateful-btn:enable-before'' (isInState i) pg
        in if allowed then
             (case wrapper i of
                None \<Rightarrow> (Inl TypeError, i, pg1)
              | Some w \<Rightarrow>
                  (case setAttribute w ''aria-hidden'' ''true'' pg1 of
                     (Inl e, pg2) \<Rightarrow> (Inl e, i, pg2)
                   | (Inr u, pg2) \<Rightarrow>
                       (case (case a11yText i of
                                None \<Rightarrow> (Inr (), pg2)
                              | Some t \<Rightarrow>
                                  if t \<noteq> [] then setAttribute (btn i) ''aria-label'' t pg2
                                  else (Inr (), pg2)) of
                          (Inl e, pg3) \<Rightarrow> (Inl e, i, pg3)
                        | (Inr u', pg3) \<Rightarrow>
                            (case (case inStateClassName i of
                                     None \<Rightarrow> (Inr (), pg3)
                                   | Some cn \<Rightarrow>
                                       if cn \<noteq> []
                                       then classList_add (btn i) (str_split CHR '' '' cn) pg3
                                       else (Inr (), pg3)) of
                               (Inl e, pg4) \<Rightarrow> (Inl e, i, pg4)
                             | (Inr u'', pg4) \<Rightarrow>
                                 let i1 = i\<lparr>isInState := True\<rparr>;
                                     (after, pg5) =
                                       dispatchEvent (btn i1) ''stateful-btn:enable-after''
                                         (isInState i1) pg4
                                 in (Inr (), i1, pg5)))))
           else (Inr (), i, pg1)
      else (Inr (), i, pg))"

definition disableState :: "inst \<Rightarrow> page \<Rightarrow> (jserror + unit) \<times> inst \<times> page" where
  "disableState i pg =
     (if isInit i then
        let (allowed, pg1) =
              dispatchEvent (btn i) ''htz-stateful-btn:disable-before'' (isInState i) pg
        in if allowed then
             let pg2 = (if truthy (a11yText i) then removeAttribute (btn i) ''aria-label'' pg1
                        else pg1)
             in case (case inStateClassName i of
                        None \<Rightarrow> (Inr (), pg2)
                      | Some cn \<Rightarrow>
                          if cn \<noteq> [] then classList_remove (btn i) (str_split CHR '' '' cn) pg2
                          else (Inr (), pg2)) of
                  (Inl e, pg3) \<Rightarrow> (Inl e, i, pg3)
                | (Inr u, pg3) \<Rightarrow>
                    (case wrapper i of
                       None \<Rightarrow> (Inl TypeError, i, pg3)
                     | Some w \<Rightarrow>
                         let pg4 = removeAttribute w ''aria-hidden'' pg3;
                             i1 = i\<lparr>isInState := False\<rparr>;
                             (after, pg5) =
                               dispatchEvent (btn i1) ''htz-stateful-btn:disable-after''
                                 (isInState i1) pg4
                         in (Inr (), i1, pg5))
           else (Inr (), i, pg1)
      else (Inr (), i, pg))"

definition toggle :: "inst \<Rightarrow> page \<Rightarrow> (jserror + unit) \<times> inst \<times> page" where
  "toggle i pg =
     (if isInit i then (if isInState i then disableState i pg else enableState i pg)
      else (Inr (), i, pg))"

text \<open>The two setters of the instance object.\<close>

definition set_a11yText :: "string option \<Rightarrow> inst \<Rightarrow> inst" where
  "set_a11yText v i = i\<lparr>a11yText := v\<rparr>"

definition set_stateClass :: "string option \<Rightarrow> inst \<Rightarrow> inst" where
  "set_stateClass v i = i\<lparr>inStateClassName := v\<rparr>"

text \<open>
  Two calls in a row, \<^verbatim>\<open>a(); b();\<close>: the second runs on what the first left,
  unless the first threw.
\<close>

definition and_then ::
  "(jserror + unit) \<times> inst \<times> page \<Rightarrow> (inst \<Rightarrow> page \<Rightarrow> (jserror + unit) \<times> inst \<times> page) \<Rightarrow>
   (jserror + unit) \<times> inst \<times> page" where
  "and_then s f = (case s of (Inl e, i, pg) \<Rightarrow> (Inl e, i, pg) | (Inr u, i, pg) \<Rightarrow> f i pg)"

section \<open>The registry\<close>

text \<open>
  The module keeps \<^verbatim>\<open>allInstances\<close>, the list of the instance objects it has made.
  An instance object is a reference into \<open>objects\<close>, the store of the objects made so
  far; \<open>next_object\<close> is the reference the next object gets. \<open>new_inst\<close> gives the
  variables of a call as its first lines leave them. \<open>statefulBtn\<close> is the exported
  function: it runs \<^verbatim>\<open>init\<close>, makes the object and pushes it unless \<^verbatim>\<open>indexOf\<close>
  finds it in the list already.
\<close>

record world =
  page_of :: page
  objects :: "nat \<Rightarrow> inst"
  next_object :: nat
  allInstances :: "nat list"

definition new_inst :: "node \<Rightarrow> string option \<Rightarrow> string option \<Rightarrow> inst" where
  "new_inst b t c =
     \<lparr>btn = b, inStateText = t, inStateClass = c, isInState = False, isInit = False,
      a11yText = None, inStateClassName = None, wrapper = None\<rparr>"

definition statefulBtn ::
  "node \<Rightarrow> string option \<Rightarrow> string option \<Rightarrow> world \<Rightarrow> ((jserror + nat) \<times> world) option" where
  "statefulBtn b t c wd =
     (case init (new_inst b t c) (page_of wd) of
        None \<Rightarrow> None
      | Some (Inl e, i1, pg1) \<Rightarrow> Some (Inl e, wd\<lparr>page_of := pg1\<rparr>)
      | Some (Inr u, i1, pg1) \<Rightarrow>
          let instance = next_object wd;
              wd1 = wd\<lparr>page_of := pg1, objects := (objects wd)(instance := i1),
                       next_object := Suc instance\<rparr>
          in Some (Inr instance,
                   if instance \<notin> set (allInstances wd1)
                   then wd1\<lparr>allInstances := allInstances wd1 @ [instance]\<rparr> else wd1))"

text \<open>
  \<^verbatim>\<open>getInstance(btn)\<close>: the argument is a string (an element id) or anything else,
  here an element; the answer is the first registered object whose \<^verbatim>\<open>btn\<close> is the
  element, or \<^verbatim>\<open>undefined\<close> (\<open>None\<close>).
\<close>

datatype lookup_key = Id string | Element node

definition getInstance :: "lookup_key \<Rightarrow> world \<Rightarrow> nat option" where
  "getInstance k wd =
     (let elem = (case k of Id s \<Rightarrow> getElementById (page_of wd) s | Element n \<Rightarrow> Some n)
      in case filter (\<lambda>item. Some (btn (objects wd item)) = elem) (allInstances wd) of
           [] \<Rightarrow> None
         | instance # _ \<Rightarrow> Some instance)"

text \<open>
  What a caller can do with the module: call \<^verbatim>\<open>statefulBtn\<close>, or call a method (or
  use a setter) of an instance object it holds. \<open>call r m\<close> runs operation \<open>m\<close> of the
  object \<open>r\<close>; \<open>reachable\<close> collects the states of the module that such calls lead to
  from a freshly loaded module, whose registry is empty.
\<close>

datatype operation =
  Init | Destroy | Toggle | EnableState | DisableState
  | SetA11yText "string option" | SetStateClass "string option"

definition run :: "operation \<Rightarrow> inst \<Rightarrow> page \<Rightarrow> ((jserror + unit) \<times> inst \<times> page) option" where
  "run m i pg =
     (case m of
        Init \<Rightarrow> init i pg
      | Destroy \<Rightarrow> destroy i pg
      | Toggle \<Rightarrow> Some (toggle i pg)
      | EnableState \<Rightarrow> Some (enableState i pg)
      | DisableState \<Rightarrow> Some (disableState i pg)
      | SetA11yText v \<Rightarrow> Some (Inr (), set_a11yText v i, pg)
      | SetStateClass v \<Rightarrow> Some (Inr (), set_stateClass v i, pg))"

definition call :: "nat \<Rightarrow> operation \<Rightarrow> world \<Rightarrow> ((jserror + unit) \<times> world) option" where
  "call r m wd =
     (case run m (objects wd r) (page_of wd) of
        None \<Rightarrow> None
      | Some (res, i', pg') \<Rightarrow> Some (res, wd\<lparr>page_of := pg', objects := (objects wd)(r := i')\<rparr>))"

inductive reachable :: "world \<Rightarrow> bool" where
  loaded: "allInstances wd = [] \<Longrightarrow> next_object wd = 0 \<Longrightarrow> reachable wd"
| constructed: "reachable wd \<Longrightarrow> statefulBtn b t c wd = Some (res, wd') \<Longrightarrow> reachable wd'"
| called: "reachable wd \<Longrightarrow> r < next_object wd \<Longrightarrow> call r m wd = Some (res, wd') \<Longrightarrow> reachable wd'"

section \<open>Well-formed pages and sample data\<close>

text \<open>
  A page is well formed when \<open>parent\<close> and \<open>kids\<close> describe the same forest: a node
  is a child of exactly its parent, no node is listed twice, no node is its own
  ancestor, and only nodes that were handed out take part. The browser keeps every
  page so; the widget's loops rely on it.
\<close>

definition parent_rel :: "page \<Rightarrow> (node \<times> node) set" where
  "parent_rel pg = {(p, c). parent pg c = Some p}"

definition wf_page :: "page \<Rightarrow> bool" where
  "wf_page pg \<longleftrightarrow>
     (\<forall>c p. parent pg c = Some p \<longleftrightarrow> c \<in> set (kids pg p)) \<and>
     (\<forall>p. distinct (kids pg p)) \<and>
     acyclic (parent_rel pg) \<and>
     (\<forall>c p. parent pg c = Some p \<longrightarrow> c < fresh pg \<and> p < fresh pg)"

text \<open>
  An element given to \<^verbatim>\<open>wrapInner\<close> as the wrapper fits when it is a node of the
  page that is neither the container, nor one of its ancestors, nor already one of its
  children. A tag name fits when it is a valid name: the element made for it is new.
\<close>

definition wrapper_fits :: "page \<Rightarrow> node \<Rightarrow> wrapper_spec \<Rightarrow> bool" where
  "wrapper_fits pg par spec =
     (case spec of
        TagName t \<Rightarrow> valid_name t
      | Elem e \<Rightarrow>
          e < fresh pg \<and> e \<notin> set (ancestors pg (fresh pg) par) \<and> e \<notin> set (kids pg par))"

text \<open>\<open>tree_only pg pg'\<close>: the two pages differ in their tree at most.\<close>

definition tree_only :: "page \<Rightarrow> page \<Rightarrow> bool" where
  "tree_only pg pg' \<longleftrightarrow> pg' = pg\<lparr>kids := kids pg', parent := parent pg'\<rparr>"

text \<open>
  \<open>class_in_step pg n\<close>: the \<^verbatim>\<open>class\<close> attribute of \<open>n\<close> is what the DOM last wrote
  for its token list (or absent, with no tokens).
\<close>

definition class_in_step :: "page \<Rightarrow> node \<Rightarrow> bool" where
  "class_in_step pg n \<longleftrightarrow>
     attrs pg n ''class'' = None \<and> classes pg n = [] \<or>
     attrs pg n ''class'' = Some (serialize_tokens (classes pg n))"

text \<open>The two invariants of an instance's flags.\<close>

definition flags_ok :: "inst \<Rightarrow> bool" where
  "flags_ok i \<longleftrightarrow> (wrapper i \<noteq> None \<longleftrightarrow> isInit i) \<and> (isInState i \<longrightarrow> isInit i)"

text \<open>
  Sample data: a page whose button (node 0, id \<^verbatim>\<open>btn\<close>) holds two nodes and carries
  both data attributes; the same page with a bare button; the variables and the page
  after \<^verbatim>\<open>statefulBtn(btn)\<close> on the first page (\<open>ready_inst\<close>, \<open>ready_page\<close>), and that
  page with an observer that vetoes everything; a module that has made no instance
  yet; the variables and the
  page after \<^verbatim>\<open>statefulBtn(btn)\<close> on the bare button (\<open>bare_inst\<close>,
  \<open>wrapped_bare_page\<close>); and the module after \<^verbatim>\<open>statefulBtn(btn)\<close> on the first page.
\<close>

definition demo_page :: page where
  "demo_page =
     \<lparr>kids = (\<lambda>n. [])(0 := [1, 2]),
      parent = (\<lambda>n. None)(1 := Some 0, 2 := Some 0),
      tag = (\<lambda>n. ''#text'')(0 := ''button''),
      attrs = (\<lambda>n. Map.empty)
        (0 := [''data-in-state-text'' \<mapsto> ''Loading'', ''data-in-state-class'' \<mapsto> ''busy'']),
      classes = (\<lambda>n. []),
      fresh = 3,
      ids = [''btn'' \<mapsto> 0],
      vetoed = (\<lambda>n name detail. False),
      events = []\<rparr>"

definition bare_page :: page where
  "bare_page = demo_page\<lparr>attrs := (\<lambda>n. Map.empty)\<rparr>"

definition ready_inst :: inst where
  "ready_inst =
     \<lparr>btn = 0, inStateText = None, inStateClass = None, isInState = False, isInit = True,
      a11yText = Some ''Loading'', inStateClassName = Some ''busy'', wrapper = Some 3\<rparr>"

definition ready_page :: page where
  "ready_page =
     \<lparr>kids = (\<lambda>n. [])(0 := [3], 3 := [1, 2]),
      parent = (\<lambda>n. None)(3 := Some 0, 1 := Some 3, 2 := Some 3),
      tag = (\<lambda>n. ''#text'')(0 := ''button'', 3 := ''span''),
      attrs = (\<lambda>n. Map.empty)
        (3 := Map.empty,
         0 := [''data-in-state-text'' \<mapsto> ''Loading'', ''data-in-state-class'' \<mapsto> ''busy'',
               ''aria-live'' \<mapsto> ''polite'']),
      classes = (\<lambda>n. [])(3 := []),
      fresh = 4,
      ids = [''btn'' \<mapsto> 0],
      vetoed = (\<lambda>n name detail. False),
      events = []\<rparr>"

definition vetoing_page :: page where
  "vetoing_page = ready_page\<lparr>vetoed := (\<lambda>n name detail. True)\<rparr>"

definition demo_world :: world where
  "demo_world =
     \<lparr>page_of = demo_page, objects = (\<lambda>r. new_inst 0 None None), next_object = 0,
      allInstances = []\<rparr>"

definition bare_inst :: inst where
  "bare_inst =
     \<lparr>btn = 0, inStateText = None, inStateClass = None, isInState = False, isInit = True,
      a11yText = None, inStateClassName = None, wrapper = Some 3\<rparr>"

definition wrapped_bare_page :: page where
  "wrapped_bare_page =
     \<lparr>kids = (\<lambda>n. [])(0 := [3], 3 := [1, 2]),
      parent = (\<lambda>n. None)(3 := Some 0, 1 := Some 3, 2 := Some 3),
      tag = (\<lambda>n. ''#text'')(0 := ''button'', 3 := ''span''),
      attrs = (\<lambda>n. Map.empty)(3 := Map.empty, 0 := [''aria-live'' \<mapsto> ''polite'']),
      classes = (\<lambda>n. [])(3 := []),
      fresh = 4,
      ids = [''btn'' \<mapsto> 0],
      vetoed = (\<lambda>n name detail. False),
      events = []\<rparr>"

definition one_world :: world where
  "one_world =
     \<lparr>page_of = ready_page, objects = (\<lambda>r. new_inst 0 None None)(0 := ready_inst),
      next_object = 1, allInstances = [0]\<rparr>"

text \<open>
  \<open>one_world\<close> is the module after \<^verbatim>\<open>a = statefulBtn(btn)\<close> on the sample button;
  \<open>destroyed_world\<close> is what \<^verbatim>\<open>a.destroy()\<close> leaves of it, and \<open>relaunched_world\<close> what
  a second \<^verbatim>\<open>statefulBtn(btn)\<close> leaves of that.
\<close>

definition destroyed_world :: world where
  "destroyed_world = snd (the (call 0 Destroy one_world))"

definition relaunched_world :: world where
  "relaunched_world = snd (the (statefulBtn 0 None None destroyed_world))"

section \<open>Lemmas about the page\<close>

lemma lower_name_literals [simp]:
  "lower_name ''aria-live'' = ''aria-live''"
  "lower_name ''aria-label'' = ''aria-label''"
  "lower_name ''aria-hidden'' = ''aria-hidden''"
  "lower_name ''data-in-state-text'' = ''data-in-state-text''"
  "lower_name ''data-in-state-class'' = ''data-in-state-class''"
  "lower_name ''span'' = ''span''"
  by (simp_all add: lower_name_def ascii_lower_def)

lemma valid_name_literals [simp]:
  "valid_name ''aria-live''" "valid_name ''aria-label''" "valid_name ''aria-hidden''"
  "valid_name ''span''"
  by (simp_all add: valid_name_def name_start_char_def name_char_def)

lemma setAttribute_lit:
  "setAttribute n ''aria-live'' v pg =
     (Inr (), pg\<lparr>attrs := (attrs pg)(n := (attrs pg n)(''aria-live'' \<mapsto> v))\<rparr>)"
  "setAttribute n ''aria-label'' v pg =
     (Inr (), pg\<lparr>attrs := (attrs pg)(n := (attrs pg n)(''aria-label'' \<mapsto> v))\<rparr>)"
  "setAttribute n ''aria-hidden'' v pg =
     (Inr (), pg\<lparr>attrs := (attrs pg)(n := (attrs pg n)(''aria-hidden'' \<mapsto> v))\<rparr>)"
  by (simp_all add: setAttribute_def)

lemma removeAttribute_lit:
  "removeAttribute n ''aria-live'' pg =
     pg\<lparr>attrs := (attrs pg)(n := (attrs pg n)(''aria-live'' := None))\<rparr>"
  "removeAttribute n ''aria-label'' pg =
     pg\<lparr>attrs := (attrs pg)(n := (attrs pg n)(''aria-label'' := None))\<rparr>"
  "removeAttribute n ''aria-hidden'' pg =
     pg\<lparr>attrs := (attrs pg)(n := (attrs pg n)(''aria-hidden'' := None))\<rparr>"
  by (simp_all add: removeAttribute_def)

lemma getAttribute_lit:
  "getAttribute pg n ''data-in-state-text'' = attrs pg n ''data-in-state-text''"
  "getAttribute pg n ''data-in-state-class'' = attrs pg n ''data-in-state-class''"
  by (simp_all add: getAttribute_def)


lemma ancestors_sound: "x \<in> set (ancestors pg k n) \<Longrightarrow> (x, n) \<in> (parent_rel pg)\<^sup>*"
proof (induction k arbitrary: n)
  case 0
  then show ?case by simp
next
  case (Suc k)
  show ?case
  proof (cases "x = n")
    case True
    then show ?thesis by simp
  next
    case False
    with Suc.prems obtain p where p: "parent pg n = Some p" and x: "x \<in> set (ancestors pg k p)"
      by (cases "parent pg n") auto
    have "(x, p) \<in> (parent_rel pg)\<^sup>*" using Suc.IH[OF x] .
    moreover have "(p, n) \<in> parent_rel pg" using p by (simp add: parent_rel_def)
    ultimately show ?thesis by (rule rtrancl_into_rtrancl)
  qed
qed

lemma wf_parent_kids: "wf_page pg \<Longrightarrow> (parent pg c = Some p) = (c \<in> set (kids pg p))"
  by (simp add: wf_page_def)

lemma wf_distinct: "wf_page pg \<Longrightarrow> distinct (kids pg p)"
  by (simp add: wf_page_def)

lemma wf_acyclic: "wf_page pg \<Longrightarrow> acyclic (parent_rel pg)"
  by (simp add: wf_page_def)

lemma wf_bound: "wf_page pg \<Longrightarrow> parent pg c = Some p \<Longrightarrow> c < fresh pg \<and> p < fresh pg"
  by (simp add: wf_page_def)

lemma wf_no_loop: "wf_page pg \<Longrightarrow> parent pg c = Some p \<Longrightarrow> (c, p) \<notin> (parent_rel pg)\<^sup>*"
proof
  assume wf: "wf_page pg" and p: "parent pg c = Some p" and r: "(c, p) \<in> (parent_rel pg)\<^sup>*"
  have "(p, c) \<in> parent_rel pg" using p by (simp add: parent_rel_def)
  with r have "(c, c) \<in> (parent_rel pg)\<^sup>+" by (rule rtrancl_into_trancl1)
  with wf_acyclic[OF wf] show False by (simp add: acyclic_def)
qed

lemma wf_not_own_parent: "wf_page pg \<Longrightarrow> parent pg c \<noteq> Some c"
  using wf_no_loop[of pg c c] by auto

lemma ancestors_self: "n \<in> set (ancestors pg k n)"
  by (cases k) simp_all

lemma ancestors_mono: "set (ancestors pg k n) \<subseteq> set (ancestors pg (k + j) n)"
proof (induction k arbitrary: n)
  case 0
  show ?case using ancestors_self[of n pg j] by simp
next
  case (Suc k)
  show ?case using Suc.IH by (cases "parent pg n") auto
qed

lemma ancestors_stable:
  "length (ancestors pg k n) \<le> k \<Longrightarrow> ancestors pg (k + j) n = ancestors pg k n"
proof (induction k arbitrary: n)
  case 0
  then show ?case by simp
next
  case (Suc k)
  then show ?case by (cases "parent pg n") auto
qed

lemma ancestors_reach:
  assumes "(x, n) \<in> (parent_rel pg)\<^sup>*"
  shows "\<exists>k. x \<in> set (ancestors pg k n)"
  using assms
proof (induction rule: rtrancl_induct)
  case base
  show ?case using ancestors_self by blast
next
  case (step y z)
  then obtain k where "x \<in> set (ancestors pg k y)" by blast
  moreover have "parent pg z = Some y" using step.hyps(2) by (simp add: parent_rel_def)
  ultimately have "x \<in> set (ancestors pg (Suc k) z)" by simp
  then show ?case by blast
qed

lemma ancestors_distinct:
  assumes wf: "wf_page pg"
  shows "distinct (ancestors pg k n)"
proof (induction k arbitrary: n)
  case 0
  show ?case by simp
next
  case (Suc k)
  show ?case
  proof (cases "parent pg n")
    case None
    then show ?thesis by simp
  next
    case (Some p)
    have "n \<notin> set (ancestors pg k p)" using ancestors_sound[of n pg k p] wf_no_loop[OF wf Some] by blast
    then show ?thesis using Some Suc.IH by simp
  qed
qed

lemma ancestors_allocated:
  assumes wf: "wf_page pg" and p: "parent pg n = Some p"
  shows "set (ancestors pg k n) \<subseteq> {..<fresh pg}"
  using p
proof (induction k arbitrary: n p)
  case 0
  then show ?case using wf_bound[OF wf] by simp
next
  case (Suc k)
  have n: "n < fresh pg" and p: "p < fresh pg" using wf_bound[OF wf Suc.prems] by simp_all
  show ?case
  proof (cases "parent pg p")
    case None
    then have "ancestors pg k p = [p]" by (cases k) simp_all
    then show ?thesis using Suc.prems n p by simp
  next
    case (Some q)
    from Suc.IH[OF Some] show ?thesis using Suc.prems n by simp
  qed
qed

lemma ancestors_exact:
  assumes wf: "wf_page pg"
  shows "(x \<in> set (ancestors pg (fresh pg) n)) = ((x, n) \<in> (parent_rel pg)\<^sup>*)"
proof
  assume "x \<in> set (ancestors pg (fresh pg) n)"
  then show "(x, n) \<in> (parent_rel pg)\<^sup>*" by (rule ancestors_sound)
next
  assume r: "(x, n) \<in> (parent_rel pg)\<^sup>*"
  then obtain k where k: "x \<in> set (ancestors pg k n)" using ancestors_reach by blast
  show "x \<in> set (ancestors pg (fresh pg) n)"
  proof (cases "k \<le> fresh pg")
    case True
    then obtain j where "fresh pg = k + j" using le_Suc_ex by blast
    then show ?thesis using k ancestors_mono[of pg k n j] by auto
  next
    case False
    then obtain j where j: "k = fresh pg + j" using le_Suc_ex[of "fresh pg" k] by auto
    show ?thesis
    proof (cases "parent pg n")
      case None
      then have "ancestors pg k n = [n]" by (cases k) simp_all
      then show ?thesis using k ancestors_self[of n pg "fresh pg"] by simp
    next
      case (Some p)
      have "card (set (ancestors pg (fresh pg) n)) \<le> card {..<fresh pg}"
        using ancestors_allocated[OF wf Some] by (intro card_mono) simp_all
      then have "length (ancestors pg (fresh pg) n) \<le> fresh pg"
        using distinct_card[OF ancestors_distinct[OF wf, of "fresh pg" n]] by simp
      then have "ancestors pg (fresh pg + j) n = ancestors pg (fresh pg) n"
        by (rule ancestors_stable)
      then show ?thesis using k j by simp
    qed
  qed
qed

lemma wf_page_attrs [simp]: "wf_page (pg\<lparr>attrs := a\<rparr>) = wf_page pg"
  by (simp add: wf_page_def parent_rel_def)

lemma wf_page_classes [simp]: "wf_page (pg\<lparr>classes := a\<rparr>) = wf_page pg"
  by (simp add: wf_page_def parent_rel_def)

lemma wf_page_events [simp]: "wf_page (pg\<lparr>events := a\<rparr>) = wf_page pg"
  by (simp add: wf_page_def parent_rel_def)

lemma wf_page_tag [simp]: "wf_page (pg\<lparr>tag := a\<rparr>) = wf_page pg"
  by (simp add: wf_page_def parent_rel_def)

lemma wf_page_vetoed [simp]: "wf_page (pg\<lparr>vetoed := a\<rparr>) = wf_page pg"
  by (simp add: wf_page_def parent_rel_def)

lemma wf_page_fresh_mono: "wf_page pg \<Longrightarrow> fresh pg \<le> k \<Longrightarrow> wf_page (pg\<lparr>fresh := k\<rparr>)"
proof -
  assume wf: "wf_page pg" and k: "fresh pg \<le> k"
  have r: "parent_rel (pg\<lparr>fresh := k\<rparr>) = parent_rel pg" by (simp add: parent_rel_def)
  have "\<And>c p. parent pg c = Some p \<Longrightarrow> c < k \<and> p < k"
    using wf_bound[OF wf] k by fastforce
  then show ?thesis using wf unfolding wf_page_def r by simp
qed

lemma wf_fresh_unused:
  assumes "wf_page pg" "fresh pg \<le> n"
  shows "kids pg n = []" "parent pg n = None" "n \<notin> set (kids pg m)"
proof -
  have b: "\<And>c p. parent pg c = Some p \<Longrightarrow> c < fresh pg \<and> p < fresh pg"
    using assms(1) by (simp add: wf_page_def)
  have pk: "\<And>x m. (parent pg x = Some m) = (x \<in> set (kids pg m))"
    using assms(1) by (simp add: wf_page_def)
  show "parent pg n = None"
  proof (cases "parent pg n")
    case (Some p)
    with b[of n p] assms(2) show ?thesis by simp
  qed simp
  then show "n \<notin> set (kids pg m)" using pk[of n m] by simp
  show "kids pg n = []"
  proof (cases "kids pg n")
    case (Cons c cs)
    then have "parent pg c = Some n" using pk[of c n] by simp
    with b[of c n] assms(2) show ?thesis by simp
  qed simp
qed

lemma tree_only_refl: "tree_only pg pg"
  by (simp add: tree_only_def)

lemma tree_only_update: "tree_only pg (pg\<lparr>kids := ks, parent := ps\<rparr>)"
  by (simp add: tree_only_def)

lemma tree_only_trans: "tree_only pg pg1 \<Longrightarrow> tree_only pg1 pg2 \<Longrightarrow> tree_only pg pg2"
  unfolding tree_only_def by (metis page.surjective page.update_convs(1,2))

lemma tree_only_fields:
  assumes "tree_only pg pg'"
  shows "tag pg' = tag pg" "attrs pg' = attrs pg" "classes pg' = classes pg"
    "fresh pg' = fresh pg" "ids pg' = ids pg" "vetoed pg' = vetoed pg" "events pg' = events pg"
proof -
  have e: "pg' = pg\<lparr>kids := kids pg', parent := parent pg'\<rparr>" using assms by (simp add: tree_only_def)
  show "tag pg' = tag pg" by (subst e) simp
  show "attrs pg' = attrs pg" by (subst e) simp
  show "classes pg' = classes pg" by (subst e) simp
  show "fresh pg' = fresh pg" by (subst e) simp
  show "ids pg' = ids pg" by (subst e) simp
  show "vetoed pg' = vetoed pg" by (subst e) simp
  show "events pg' = events pg" by (subst e) simp
qed

lemma move_wf:
  assumes wf: "wf_page pg" and c: "c < fresh pg" and p: "p < fresh pg"
    and up: "(c, p) \<notin> (parent_rel pg)\<^sup>*"
    and ks: "set ks = insert c (set (kids pg p))" "distinct ks"
  shows "wf_page (pg\<lparr>kids := (\<lambda>n. if n = p then ks else remove1 c (kids pg n)),
                     parent := (parent pg)(c := Some p)\<rparr>)"
proof -
  let ?pg = "pg\<lparr>kids := (\<lambda>n. if n = p then ks else remove1 c (kids pg n)),
                 parent := (parent pg)(c := Some p)\<rparr>"
  have d: "\<And>n. distinct (kids pg n)" using wf by (simp add: wf_page_def)
  have pk: "\<And>x n. (parent pg x = Some n) = (x \<in> set (kids pg n))" using wf by (simp add: wf_page_def)
  have 1: "\<forall>x n. (parent ?pg x = Some n) = (x \<in> set (kids ?pg n))"
    using ks d by (auto simp: pk)
  have 2: "\<forall>n. distinct (kids ?pg n)"
    using ks d by (simp add: distinct_remove1)
  have "parent_rel ?pg \<subseteq> insert (p, c) (parent_rel pg)"
    by (auto simp: parent_rel_def split: if_splits)
  moreover have "acyclic (insert (p, c) (parent_rel pg))"
    using wf_acyclic[OF wf] up by simp
  ultimately have 3: "acyclic (parent_rel ?pg)" by (rule acyclic_subset[rotated])
  have 4: "\<forall>x n. parent ?pg x = Some n \<longrightarrow> x < fresh ?pg \<and> n < fresh ?pg"
    using wf_bound[OF wf] c p by (auto split: if_splits)
  show ?thesis unfolding wf_page_def using 1 2 3 4 by blast
qed

lemma appendChild_effect:
  assumes wf: "wf_page pg" and up: "(c, p) \<notin> (parent_rel pg)\<^sup>*" and nk: "c \<notin> set (kids pg p)"
  shows "appendChild p c pg =
           (Inr (), pg\<lparr>kids := (\<lambda>n. if n = p then kids pg p @ [c] else remove1 c (kids pg n)),
                        parent := (parent pg)(c := Some p)\<rparr>)"
proof -
  have pk: "\<And>x n. (parent pg x = Some n) = (x \<in> set (kids pg n))" using wf by (simp add: wf_page_def)
  have chk: "c \<notin> set (ancestors pg (fresh pg) p)" using up ancestors_sound by blast
  show ?thesis
  proof (cases "parent pg c")
    case None
    then have "\<And>n. c \<notin> set (kids pg n)" using pk[of c] by simp
    then have "(kids pg)(p := kids pg p @ [c]) =
               (\<lambda>n. if n = p then kids pg p @ [c] else remove1 c (kids pg n))"
      by (auto simp: fun_eq_iff remove1_idem)
    then show ?thesis using chk None
      by (simp add: appendChild_def pre_insert_def detach_def)
  next
    case (Some q)
    then have qp: "q \<noteq> p" using nk pk by auto
    have "\<And>n. n \<noteq> q \<Longrightarrow> c \<notin> set (kids pg n)" using Some pk[of c] by (metis option.inject)
    then have "(kids pg)(q := remove1 c (kids pg q), p := kids pg p @ [c]) =
               (\<lambda>n. if n = p then kids pg p @ [c] else remove1 c (kids pg n))"
      by (auto simp: fun_eq_iff remove1_idem)
    then show ?thesis using chk Some qp
      by (simp add: appendChild_def pre_insert_def detach_def)
  qed
qed

lemma appendChild_wf:
  assumes wf: "wf_page pg" and c: "c < fresh pg" and p: "p < fresh pg"
    and up: "(c, p) \<notin> (parent_rel pg)\<^sup>*" and nk: "c \<notin> set (kids pg p)"
  shows "wf_page (snd (appendChild p c pg))"
proof -
  have "distinct (kids pg p @ [c])" using wf_distinct[OF wf] nk by simp
  then show ?thesis
    using move_wf[OF wf c p up, of "kids pg p @ [c]"]
    by (simp add: appendChild_effect[OF wf up nk])
qed

lemma insert_before_split:
  "r \<notin> set pre \<Longrightarrow> insert_before r c (pre @ r # post) = pre @ c # r # post"
  by (induction pre) (auto simp: insert_before_def)

lemma set_insert_before: "set (insert_before r c ks) = insert c (set ks)"
  by (induction ks) (auto simp: insert_before_def)

lemma distinct_insert_before:
  "distinct ks \<Longrightarrow> c \<notin> set ks \<Longrightarrow> distinct (insert_before r c ks)"
  by (induction ks) (auto simp: insert_before_def dest: set_takeWhileD set_dropWhileD)

lemma insertBefore_effect:
  assumes wf: "wf_page pg" and up: "(c, p) \<notin> (parent_rel pg)\<^sup>*" and nk: "c \<notin> set (kids pg p)"
    and r: "parent pg r = Some p"
  shows "insertBefore p c r pg =
           (Inr (), pg\<lparr>kids := (\<lambda>n. if n = p then insert_before r c (kids pg p)
                                     else remove1 c (kids pg n)),
                        parent := (parent pg)(c := Some p)\<rparr>)"
proof -
  have pk: "\<And>x n. (parent pg x = Some n) = (x \<in> set (kids pg n))" using wf by (simp add: wf_page_def)
  have chk: "c \<notin> set (ancestors pg (fresh pg) p)" using up ancestors_sound by blast
  have cr: "r \<noteq> c" using r nk pk by auto
  show ?thesis
  proof (cases "parent pg c")
    case None
    then have "\<And>n. c \<notin> set (kids pg n)" using pk[of c] by simp
    then have "(kids pg)(p := insert_before r c (kids pg p)) =
               (\<lambda>n. if n = p then insert_before r c (kids pg p) else remove1 c (kids pg n))"
      by (auto simp: fun_eq_iff remove1_idem)
    then show ?thesis using chk None r cr
      by (simp add: insertBefore_def pre_insert_def detach_def)
  next
    case (Some q)
    then have qp: "q \<noteq> p" using nk pk by auto
    have "\<And>n. n \<noteq> q \<Longrightarrow> c \<notin> set (kids pg n)" using Some pk[of c] by (metis option.inject)
    then have "(kids pg)(q := remove1 c (kids pg q), p := insert_before r c (kids pg p)) =
               (\<lambda>n. if n = p then insert_before r c (kids pg p) else remove1 c (kids pg n))"
      by (auto simp: fun_eq_iff remove1_idem)
    then show ?thesis using chk Some qp r cr
      by (simp add: insertBefore_def pre_insert_def detach_def)
  qed
qed

lemma insertBefore_wf:
  assumes wf: "wf_page pg" and c: "c < fresh pg"
    and up: "(c, p) \<notin> (parent_rel pg)\<^sup>*" and nk: "c \<notin> set (kids pg p)"
    and r: "parent pg r = Some p"
  shows "wf_page (snd (insertBefore p c r pg))"
proof -
  have p: "p < fresh pg" using wf_bound[OF wf r] by simp
  have "set (insert_before r c (kids pg p)) = insert c (set (kids pg p))"
    by (rule set_insert_before)
  moreover have "distinct (insert_before r c (kids pg p))"
    using wf_distinct[OF wf, of p] nk by (rule distinct_insert_before)
  ultimately show ?thesis
    using move_wf[OF wf c p up, of "insert_before r c (kids pg p)"]
    by (simp add: insertBefore_effect[OF wf up nk r])
qed

lemma detach_wf:
  assumes wf: "wf_page pg"
  shows "wf_page (detach c pg)"
proof (cases "parent pg c")
  case None
  then show ?thesis using wf by (simp add: detach_def)
next
  case (Some q)
  let ?pg = "pg\<lparr>kids := (kids pg)(q := remove1 c (kids pg q)), parent := (parent pg)(c := None)\<rparr>"
  have d: "\<And>n. distinct (kids pg n)" using wf by (simp add: wf_page_def)
  have pk: "\<And>x n. (parent pg x = Some n) = (x \<in> set (kids pg n))" using wf by (simp add: wf_page_def)
  have cq: "\<And>n. c \<in> set (kids pg n) \<Longrightarrow> n = q" using Some pk[of c] by (metis option.inject)
  have 1: "\<forall>x n. (parent ?pg x = Some n) = (x \<in> set (kids ?pg n))"
    using d cq by (auto simp: pk)
  have 2: "\<forall>n. distinct (kids ?pg n)" using d by (simp add: distinct_remove1)
  have "parent_rel ?pg \<subseteq> parent_rel pg" by (auto simp: parent_rel_def split: if_splits)
  with wf_acyclic[OF wf] have 3: "acyclic (parent_rel ?pg)" by (rule acyclic_subset)
  have 4: "\<forall>x n. parent ?pg x = Some n \<longrightarrow> x < fresh ?pg \<and> n < fresh ?pg"
    using wf_bound[OF wf] by (auto split: if_splits)
  have "wf_page ?pg" unfolding wf_page_def using 1 2 3 4 by blast
  then show ?thesis using Some by (simp add: detach_def)
qed

lemma detach_tree_only: "tree_only pg (detach c pg)"
  by (cases "parent pg c") (simp_all add: detach_def tree_only_def)

lemma removeChild_wf: "wf_page pg \<Longrightarrow> wf_page (snd (removeChild p c pg))"
  by (simp add: removeChild_def detach_wf)

lemma removeChild_tree_only: "tree_only pg (snd (removeChild p c pg))"
  by (simp add: removeChild_def detach_tree_only tree_only_refl)

lemma createElement_eq:
  assumes wf: "wf_page pg" and t: "valid_name t"
  shows "createElement t pg =
           (Inr (fresh pg),
            pg\<lparr>tag := (tag pg)(fresh pg := lower_name t),
               attrs := (attrs pg)(fresh pg := Map.empty),
               classes := (classes pg)(fresh pg := []), fresh := Suc (fresh pg)\<rparr>)"
proof -
  have u: "kids pg (fresh pg) = []" "parent pg (fresh pg) = None"
    using wf_fresh_unused[OF wf, of "fresh pg"] by simp_all
  have kp: "(kids pg)(fresh pg := []) = kids pg" "(parent pg)(fresh pg := None) = parent pg"
    using u by (auto simp: fun_eq_iff)
  show ?thesis using t by (simp add: createElement_def kp)
qed

lemma createElement_invalid:
  "\<not> valid_name t \<Longrightarrow> createElement t pg = (Inl InvalidCharacterError, pg)"
  by (simp add: createElement_def)

lemma createElement_wf: "wf_page pg \<Longrightarrow> wf_page (snd (createElement t pg))"
  by (cases "valid_name t") (simp_all add: createElement_eq createElement_invalid wf_page_fresh_mono)

lemma setAttribute_fields:
  "kids (snd (setAttribute n k v pg)) = kids pg" "parent (snd (setAttribute n k v pg)) = parent pg"
  "fresh (snd (setAttribute n k v pg)) = fresh pg" "tag (snd (setAttribute n k v pg)) = tag pg"
  "events (snd (setAttribute n k v pg)) = events pg"
  "vetoed (snd (setAttribute n k v pg)) = vetoed pg" "ids (snd (setAttribute n k v pg)) = ids pg"
  by (simp_all add: setAttribute_def Let_def)

lemma setAttribute_valid:
  assumes "valid_name k"
  shows "fst (setAttribute n k v pg) = Inr ()"
    "attrs (snd (setAttribute n k v pg)) = (attrs pg)(n := (attrs pg n)(lower_name k \<mapsto> v))"
  using assms by (simp_all add: setAttribute_def Let_def)

lemma set_attributes_fields:
  "kids (snd (set_attributes w as pg)) = kids pg \<and>
   parent (snd (set_attributes w as pg)) = parent pg \<and>
   fresh (snd (set_attributes w as pg)) = fresh pg \<and>
   tag (snd (set_attributes w as pg)) = tag pg \<and>
   events (snd (set_attributes w as pg)) = events pg \<and>
   vetoed (snd (set_attributes w as pg)) = vetoed pg \<and>
   ids (snd (set_attributes w as pg)) = ids pg"
proof (induction as arbitrary: pg)
  case Nil
  show ?case by simp
next
  case (Cons a as)
  obtain k v where a: "a = (k, v)" by (cases a)
  obtain r pg1 where s: "setAttribute w k v pg = (r, pg1)" by (cases "setAttribute w k v pg")
  have f: "kids pg1 = kids pg" "parent pg1 = parent pg" "fresh pg1 = fresh pg" "tag pg1 = tag pg"
    "events pg1 = events pg" "vetoed pg1 = vetoed pg" "ids pg1 = ids pg"
    using setAttribute_fields[of w k v pg] by (simp_all add: s)
  show ?case
  proof (cases r)
    case (Inl e)
    then show ?thesis using f by (simp add: a s)
  next
    case (Inr u)
    then show ?thesis using Cons.IH[of pg1] f by (simp add: a s)
  qed
qed

lemma set_attributes_wf: "wf_page (snd (set_attributes w as pg)) = wf_page pg"
  using set_attributes_fields[of w as pg] by (simp add: wf_page_def parent_rel_def)

lemma set_attributes_valid:
  assumes "list_all (\<lambda>(k, v). valid_name k) as"
  shows "fst (set_attributes w as pg) = Inr () \<and>
         attrs (snd (set_attributes w as pg)) =
           (attrs pg)(w := attrs pg w ++ map_of (rev (map (\<lambda>(k, v). (lower_name k, v)) as)))"
  using assms
proof (induction as arbitrary: pg)
  case Nil
  show ?case by simp
next
  case (Cons a as)
  obtain k v where a: "a = (k, v)" by (cases a)
  have vk: "valid_name k" and vs: "list_all (\<lambda>(k, v). valid_name k) as"
    using Cons.prems by (simp_all add: a)
  obtain pg1 where s: "setAttribute w k v pg = (Inr (), pg1)"
    using setAttribute_valid(1)[OF vk, of w v pg] by (cases "setAttribute w k v pg") auto
  have a1: "attrs pg1 = (attrs pg)(w := (attrs pg w)(lower_name k \<mapsto> v))"
    using setAttribute_valid(2)[OF vk, of w v pg] by (simp add: s)
  have e: "set_attributes w (a # as) pg = set_attributes w as pg1" by (simp add: a s)
  let ?M = "map_of (rev (map (\<lambda>(k, v). (lower_name k, v)) as))"
  have m: "map_of (rev (map (\<lambda>(k, v). (lower_name k, v)) (a # as))) = [lower_name k \<mapsto> v] ++ ?M"
    by (simp add: a)
  have m2: "attrs pg w ++ ([lower_name k \<mapsto> v] ++ ?M) = (attrs pg w)(lower_name k \<mapsto> v) ++ ?M"
    by (simp add: fun_eq_iff map_add_def split: option.splits)
  note ih = Cons.IH[OF vs, of pg1]
  have f1: "fst (set_attributes w as pg1) = Inr ()" using ih by (rule conjunct1)
  have a2: "attrs (snd (set_attributes w as pg1)) = (attrs pg1)(w := attrs pg1 w ++ ?M)"
    using ih by (rule conjunct2)
  have a3: "attrs (snd (set_attributes w as pg1)) =
              (attrs pg)(w := (attrs pg w)(lower_name k \<mapsto> v) ++ ?M)"
    unfolding a2 by (simp add: a1)
  show ?case unfolding e m m2 using f1 a3 by (intro conjI)
qed

lemma set_attributes_invalid:
  assumes "\<not> list_all (\<lambda>(k, v). valid_name k) as"
  shows "fst (set_attributes w as pg) = Inl InvalidCharacterError"
  using assms
proof (induction as arbitrary: pg)
  case Nil
  then show ?case by simp
next
  case (Cons a as)
  obtain k v where a: "a = (k, v)" by (cases a)
  show ?case
  proof (cases "valid_name k")
    case False
    then show ?thesis by (simp add: a setAttribute_def)
  next
    case True
    obtain pg1 where s: "setAttribute w k v pg = (Inr (), pg1)"
      using setAttribute_valid(1)[OF True, of w v pg] by (cases "setAttribute w k v pg") auto
    have "\<not> list_all (\<lambda>(k, v). valid_name k) as" using Cons.prems True by (simp add: a)
    from Cons.IH[OF this, of pg1] show ?thesis by (simp add: a s)
  qed
qed

lemma attrs_hit:
  assumes "distinct (map fst as)" "(k, v) \<in> set as"
  shows "(m ++ map_of (rev as)) k = Some v"
proof -
  have "distinct (map fst (rev as))" using assms(1) by (simp add: rev_map[symmetric])
  moreover have "(k, v) \<in> set (rev as)" using assms(2) by simp
  ultimately have "map_of (rev as) k = Some v" by (rule map_of_is_SomeI)
  then show ?thesis by (simp add: map_add_def)
qed

lemma remove_tokens_eq: "remove_tokens ts cs = filter (\<lambda>c. c \<notin> set ts) cs"
  by (induction ts arbitrary: cs) (auto simp: removeAll_filter_not_eq intro: filter_cong)

lemma removeAttribute_absent:
  "attrs pg n k = None \<Longrightarrow> lower_name k = k \<Longrightarrow> k \<noteq> ''class'' \<Longrightarrow> removeAttribute n k pg = pg"
  by (simp add: removeAttribute_def fun_upd_idem)

lemma update_class_fields:
  "kids (update_class n cs pg) = kids pg" "parent (update_class n cs pg) = parent pg"
  "fresh (update_class n cs pg) = fresh pg" "tag (update_class n cs pg) = tag pg"
  "events (update_class n cs pg) = events pg" "vetoed (update_class n cs pg) = vetoed pg"
  "ids (update_class n cs pg) = ids pg"
  "classes (update_class n cs pg) = (classes pg)(n := cs)"
  by (simp_all add: update_class_def Let_def)

lemma update_class_attrs:
  "m \<noteq> n \<or> k \<noteq> ''class'' \<Longrightarrow> attrs (update_class n cs pg) m k = attrs pg m k"
  by (auto simp: update_class_def Let_def)

lemma update_class_wf [simp]: "wf_page (update_class n cs pg) = wf_page pg"
  by (simp add: wf_page_def parent_rel_def update_class_fields)

lemma update_class_in_step: "class_in_step (update_class n cs pg) n"
  by (simp add: class_in_step_def update_class_def Let_def)

lemma update_class_same:
  "class_in_step pg n \<Longrightarrow> update_class n (classes pg n) pg = pg"
  by (auto simp: class_in_step_def update_class_def Let_def fun_upd_idem)

lemma classList_remove_cases:
  "classList_remove n ts pg = (Inl e, pg') \<Longrightarrow> pg' = pg"
  "classList_remove n ts pg = (Inr u, pg') \<Longrightarrow>
     pg' = update_class n (remove_tokens ts (classes pg n)) pg"
  by (auto simp: classList_remove_def split: option.splits)

lemma classList_remove_absent:
  assumes "validate_tokens ts = None" "set ts \<inter> set (classes pg n) = {}" "class_in_step pg n"
  shows "classList_remove n ts pg = (Inr (), pg)"
proof -
  have "filter (\<lambda>c. c \<notin> set ts) (classes pg n) = classes pg n"
    using assms(2) by (auto intro: filter_True)
  then show ?thesis
    using assms(1) update_class_same[OF assms(3)]
    by (simp add: classList_remove_def remove_tokens_eq)
qed

section \<open>Lemmas about wrapInner\<close>

lemma move_into_moves:
  assumes "wf_page pg" "parent pg w = Some par" "kids pg par = cs @ [w]"
  shows "\<exists>pg'. move_into par w pg = Some (Inr (), pg') \<and> wf_page pg' \<and> tree_only pg pg' \<and>
           kids pg' par = [w] \<and> kids pg' w = kids pg w @ cs \<and>
           (\<forall>n. n \<noteq> par \<longrightarrow> n \<noteq> w \<longrightarrow> kids pg' n = kids pg n)"
  using assms
proof (induction cs arbitrary: pg)
  case Nil
  then have "firstChild pg par = Some w" by (simp add: firstChild_def)
  then have "move_into par w pg = Some (Inr (), pg)" by (subst move_into.simps) simp
  with Nil show ?case by (simp add: tree_only_refl)
next
  case (Cons c cs)
  note wf = \<open>wf_page pg\<close> and pw = \<open>parent pg w = Some par\<close> and kp = \<open>kids pg par = (c # cs) @ [w]\<close>
  have cw: "c \<noteq> w" using wf_distinct[OF wf, of par] kp by auto
  have pc: "parent pg c = Some par" using wf_parent_kids[OF wf, of c par] kp by simp
  have wp: "w \<noteq> par" using wf_not_own_parent[OF wf, of w] pw by auto
  have up: "(c, w) \<notin> (parent_rel pg)\<^sup>*"
  proof
    assume "(c, w) \<in> (parent_rel pg)\<^sup>*"
    then show False
    proof (cases rule: rtranclE)
      case base
      with cw show False by simp
    next
      case (step y)
      then have "y = par" using pw by (simp add: parent_rel_def)
      with step wf_no_loop[OF wf pc] show False by simp
    qed
  qed
  have nk: "c \<notin> set (kids pg w)" using wf_parent_kids[OF wf, of c w] pc wp by auto
  let ?pg1 = "pg\<lparr>kids := (\<lambda>n. if n = w then kids pg w @ [c] else remove1 c (kids pg n)),
                  parent := (parent pg)(c := Some w)\<rparr>"
  have eff: "appendChild w c pg = (Inr (), ?pg1)" by (rule appendChild_effect[OF wf up nk])
  have "wf_page (snd (appendChild w c pg))"
    using wf_bound[OF wf pc] wf_bound[OF wf pw] by (intro appendChild_wf[OF wf _ _ up nk]) auto
  then have wf1: "wf_page ?pg1" by (simp add: eff)
  have pw1: "parent ?pg1 w = Some par" using cw pw by simp
  have kp1: "kids ?pg1 par = cs @ [w]" using wp kp by simp
  from Cons.IH[OF wf1 pw1 kp1] obtain pg' where
    r: "move_into par w ?pg1 = Some (Inr (), pg')" and wf': "wf_page pg'"
    and t: "tree_only ?pg1 pg'" and k1: "kids pg' par = [w]"
    and k2: "kids pg' w = kids ?pg1 w @ cs"
    and k3: "\<forall>n. n \<noteq> par \<longrightarrow> n \<noteq> w \<longrightarrow> kids pg' n = kids ?pg1 n"
    by blast
  have "move_into par w pg = move_into par w ?pg1"
    by (subst move_into.simps) (simp add: firstChild_def kp cw eff)
  then have 1: "move_into par w pg = Some (Inr (), pg')" using r by simp
  have 2: "tree_only pg pg'" using tree_only_trans[OF tree_only_update t] .
  have 3: "kids pg' w = kids pg w @ c # cs" using k2 by simp
  have 4: "\<forall>n. n \<noteq> par \<longrightarrow> n \<noteq> w \<longrightarrow> kids pg' n = kids pg n"
  proof (intro allI impI)
    fix n assume n: "n \<noteq> par" "n \<noteq> w"
    then have "c \<notin> set (kids pg n)" using wf_parent_kids[OF wf, of c n] pc by auto
    then show "kids pg' n = kids pg n" using k3 n by (simp add: remove1_idem)
  qed
  show ?case using 1 wf' 2 k1 3 4 by blast
qed

lemma wrapInner_core:
  assumes wf: "wf_page pg" and par: "par < fresh pg" and fits: "wrapper_fits pg par spec"
    and sp: "(case spec of TagName t \<Rightarrow> createElement t pg | Elem e \<Rightarrow> (Inr e, pg)) = (Inr w, pg1)"
    and av: "list_all (\<lambda>(k, v). valid_name k) as"
  shows "\<exists>pg'. wrapInner par spec as pg = Some (Inr (par, w), pg') \<and> wf_page pg' \<and>
           tree_only (snd (set_attributes w as pg1)) pg' \<and>
           kids pg' par = [w] \<and> kids pg' w = kids pg1 w @ kids pg par \<and>
           (\<forall>n. n \<noteq> par \<longrightarrow> n \<noteq> w \<longrightarrow> kids pg' n = remove1 w (kids pg n))"
proof -
  have pre: "wf_page pg1 \<and> par < fresh pg1 \<and> w < fresh pg1 \<and> (w, par) \<notin> (parent_rel pg1)\<^sup>* \<and>
             w \<notin> set (kids pg1 par) \<and> (\<forall>n. n \<noteq> w \<longrightarrow> kids pg1 n = kids pg n)"
  proof (cases spec)
    case (TagName t)
    then have vt: "valid_name t" using fits by (simp add: wrapper_fits_def)
    have ce: "createElement t pg = (Inr w, pg1)" using sp TagName by simp
    have w: "w = fresh pg" using ce by (simp add: createElement_eq[OF wf vt])
    have pg1: "pg1 = snd (createElement t pg)" by (simp add: ce)
    have pg1': "pg1 = pg\<lparr>tag := (tag pg)(fresh pg := lower_name t),
                         attrs := (attrs pg)(fresh pg := Map.empty),
                         classes := (classes pg)(fresh pg := []), fresh := Suc (fresh pg)\<rparr>"
      by (simp add: pg1 createElement_eq[OF wf vt])
    have wf1: "wf_page pg1" unfolding pg1 by (rule createElement_wf[OF wf])
    have k: "\<And>n. n \<noteq> w \<Longrightarrow> kids pg1 n = kids pg n" "kids pg1 w = []"
      using wf_fresh_unused(1)[OF wf, of w] by (simp_all add: pg1' w)
    have f: "fresh pg1 = Suc (fresh pg)" by (simp add: pg1')
    have nochild: "\<And>y. (w, y) \<notin> parent_rel pg1"
      using wf_parent_kids[OF wf1] k(2) by (simp add: parent_rel_def)
    have "(w, par) \<notin> (parent_rel pg1)\<^sup>*"
    proof
      assume "(w, par) \<in> (parent_rel pg1)\<^sup>*"
      then show False using nochild par w by (cases rule: converse_rtranclE) auto
    qed
    moreover have "w \<notin> set (kids pg1 par)"
      using k(1)[of par] par w wf_fresh_unused(3)[OF wf, of w par] by simp
    ultimately show ?thesis using wf1 par w f k(1) by simp
  next
    case (Elem e)
    then have "w = e" "pg1 = pg" using sp by auto
    then show ?thesis using wf par fits Elem by (simp add: wrapper_fits_def ancestors_exact[OF wf])
  qed
  obtain pg2 where sa: "set_attributes w as pg1 = (Inr (), pg2)"
    using set_attributes_valid[OF av, of w pg1] by (cases "set_attributes w as pg1") simp
  have s2: "kids pg2 = kids pg1" "parent pg2 = parent pg1" "fresh pg2 = fresh pg1"
    using set_attributes_fields[of w as pg1] by (simp_all add: sa)
  have wf2: "wf_page pg2" using pre set_attributes_wf[of w as pg1] by (simp add: sa)
  have r2: "parent_rel pg2 = parent_rel pg1" by (simp add: parent_rel_def s2)
  have up2: "(w, par) \<notin> (parent_rel pg2)\<^sup>*" using pre r2 by simp
  have nk2: "w \<notin> set (kids pg2 par)" using pre s2 by simp
  let ?pg3 = "pg2\<lparr>kids := (\<lambda>n. if n = par then kids pg2 par @ [w] else remove1 w (kids pg2 n)),
                    parent := (parent pg2)(w := Some par)\<rparr>"
  have eff: "appendChild par w pg2 = (Inr (), ?pg3)" by (rule appendChild_effect[OF wf2 up2 nk2])
  have "wf_page (snd (appendChild par w pg2))"
    using pre s2 by (intro appendChild_wf[OF wf2 _ _ up2 nk2]) auto
  then have wf3: "wf_page ?pg3" by (simp add: eff)
  have wp: "w \<noteq> par" using pre by auto
  have kpar: "kids pg1 par = kids pg par" using pre wp by simp
  have pw3: "parent ?pg3 w = Some par" by simp
  have kp3: "kids ?pg3 par = kids pg par @ [w]" using kpar by (simp add: s2)
  have "w \<notin> set (kids pg1 w)" using wf_parent_kids[of pg1 w w] wf_not_own_parent[of pg1 w] pre by simp
  then have kw3: "kids ?pg3 w = kids pg1 w" using wp by (simp add: s2 remove1_idem)
  obtain pg' where
    r: "move_into par w ?pg3 = Some (Inr (), pg')" and wf': "wf_page pg'"
    and t: "tree_only ?pg3 pg'" and k1: "kids pg' par = [w]"
    and k2: "kids pg' w = kids ?pg3 w @ kids pg par"
    and k3: "\<forall>n. n \<noteq> par \<longrightarrow> n \<noteq> w \<longrightarrow> kids pg' n = kids ?pg3 n"
    using move_into_moves[OF wf3 pw3 kp3] by (elim exE conjE) (rule that; assumption)
  have 1: "wrapInner par spec as pg = Some (Inr (par, w), pg')"
    unfolding wrapInner_def by (simp add: sp sa eff r)
  have "tree_only pg2 pg'" using tree_only_trans[OF tree_only_update t] .
  then have 2: "tree_only (snd (set_attributes w as pg1)) pg'" by (simp add: sa)
  have 3: "kids pg' w = kids pg1 w @ kids pg par" using k2 kw3 by simp
  have 4: "\<forall>n. n \<noteq> par \<longrightarrow> n \<noteq> w \<longrightarrow> kids pg' n = remove1 w (kids pg n)"
    using k3 pre by (simp add: s2)
  show ?thesis using 1 wf' 2 k1 3 4 by blast
qed

section \<open>Lemmas about the methods of an instance\<close>

lemma unwrap_moves:
  assumes "wf_page pg" "parent pg w = Some b" "kids pg b = pre @ w # post" "kids pg w = cs"
  shows "\<exists>pg'. unwrap b w pg = Some (Inr (), pg') \<and> wf_page pg' \<and> tree_only pg pg' \<and>
           kids pg' w = [] \<and> kids pg' b = pre @ cs @ w # post \<and> parent pg' w = Some b \<and>
           (\<forall>n. n \<noteq> b \<longrightarrow> n \<noteq> w \<longrightarrow> kids pg' n = kids pg n)"
  using assms
proof (induction cs arbitrary: pg pre)
  case Nil
  then have "firstChild pg w = None" by (simp add: firstChild_def)
  then have "unwrap b w pg = Some (Inr (), pg)" by (subst unwrap.simps) simp
  with Nil show ?case by (simp add: tree_only_refl)
next
  case (Cons c cs)
  note wf = \<open>wf_page pg\<close> and pw = \<open>parent pg w = Some b\<close>
    and kb = \<open>kids pg b = pre @ w # post\<close> and kw = \<open>kids pg w = c # cs\<close>
  have pc: "parent pg c = Some w" using wf_parent_kids[OF wf, of c w] kw by simp
  have bw: "b \<noteq> w" using wf_not_own_parent[OF wf, of w] pw by auto
  have cw: "c \<noteq> w" using wf_not_own_parent[OF wf, of w] pc by auto
  have up: "(c, b) \<notin> (parent_rel pg)\<^sup>*"
  proof
    assume "(c, b) \<in> (parent_rel pg)\<^sup>*"
    moreover have "(b, w) \<in> parent_rel pg" using pw by (simp add: parent_rel_def)
    ultimately have "(c, w) \<in> (parent_rel pg)\<^sup>*" by (rule rtrancl_into_rtrancl)
    with wf_no_loop[OF wf pc] show False by simp
  qed
  have nk: "c \<notin> set (kids pg b)" using wf_parent_kids[OF wf, of c b] pc bw by auto
  have wpre: "w \<notin> set pre" using wf_distinct[OF wf, of b] kb by auto
  let ?pg1 = "pg\<lparr>kids := (\<lambda>n. if n = b then insert_before w c (kids pg b)
                                else remove1 c (kids pg n)),
                  parent := (parent pg)(c := Some b)\<rparr>"
  have eff: "insertBefore b c w pg = (Inr (), ?pg1)" by (rule insertBefore_effect[OF wf up nk pw])
  have "wf_page (snd (insertBefore b c w pg))"
    using wf_bound[OF wf pc] by (intro insertBefore_wf[OF wf _ up nk pw]) auto
  then have wf1: "wf_page ?pg1" by (simp add: eff)
  have pw1: "parent ?pg1 w = Some b" using cw pw by simp
  have kb1: "kids ?pg1 b = (pre @ [c]) @ w # post" using kb wpre by (simp add: insert_before_split)
  have kw1: "kids ?pg1 w = cs" using bw kw by simp
  from Cons.IH[OF wf1 pw1 kb1 kw1] obtain pg' where
    r: "unwrap b w ?pg1 = Some (Inr (), pg')" and wf': "wf_page pg'"
    and t: "tree_only ?pg1 pg'" and k1: "kids pg' w = []"
    and k2: "kids pg' b = (pre @ [c]) @ cs @ w # post" and p': "parent pg' w = Some b"
    and k3: "\<forall>n. n \<noteq> b \<longrightarrow> n \<noteq> w \<longrightarrow> kids pg' n = kids ?pg1 n"
    by blast
  have "unwrap b w pg = unwrap b w ?pg1"
    by (subst unwrap.simps) (simp add: firstChild_def kw eff)
  then have 1: "unwrap b w pg = Some (Inr (), pg')" using r by simp
  have 2: "tree_only pg pg'" using tree_only_trans[OF tree_only_update t] .
  have 3: "kids pg' b = pre @ (c # cs) @ w # post" using k2 by simp
  have 4: "\<forall>n. n \<noteq> b \<longrightarrow> n \<noteq> w \<longrightarrow> kids pg' n = kids pg n"
  proof (intro allI impI)
    fix n assume n: "n \<noteq> b" "n \<noteq> w"
    then have "c \<notin> set (kids pg n)" using wf_parent_kids[OF wf, of c n] pc by auto
    then show "kids pg' n = kids pg n" using k3 n by (simp add: remove1_idem)
  qed
  show ?case using 1 wf' 2 k1 3 p' 4 by blast
qed

lemma unwrap_total:
  assumes wf: "wf_page pg"
  shows "\<exists>r pg'. unwrap b w pg = Some (r, pg') \<and> wf_page pg' \<and> tree_only pg pg'"
proof (cases "parent pg w = Some b")
  case True
  then have "w \<in> set (kids pg b)" using wf_parent_kids[OF wf] by simp
  then obtain pre post where "kids pg b = pre @ w # post" by (auto dest: split_list)
  from unwrap_moves[OF wf True this refl] show ?thesis by blast
next
  case False
  show ?thesis
  proof (cases "kids pg w")
    case Nil
    then have "firstChild pg w = None" by (simp add: firstChild_def)
    then have "unwrap b w pg = Some (Inr (), pg)" by (subst unwrap.simps) simp
    then show ?thesis using wf by (simp add: tree_only_refl)
  next
    case (Cons c cs)
    have "\<exists>e. insertBefore b c w pg = (Inl e, pg)"
      using False by (simp add: insertBefore_def pre_insert_def)
    then obtain e where "insertBefore b c w pg = (Inl e, pg)" ..
    then have "unwrap b w pg = Some (Inl e, pg)"
      by (subst unwrap.simps) (simp add: firstChild_def Cons)
    then show ?thesis using wf by (simp add: tree_only_refl)
  qed
qed

lemma destroy_total:
  assumes wf: "wf_page pg"
  shows "\<exists>r i' pg'. destroy i pg = Some (r, i', pg') \<and> wf_page pg' \<and> fresh pg' = fresh pg \<and>
           (i' = i \<or> r = Inr () \<and> i' = i\<lparr>wrapper := None, isInit := False, isInState := False\<rparr>) \<and>
           (r = Inr () \<longrightarrow> \<not> isInit i') \<and>
           (\<forall>n k. (n = btn i \<longrightarrow> k \<noteq> ''aria-live'' \<and> k \<noteq> ''aria-label'' \<and> k \<noteq> ''class'') \<longrightarrow>
                  attrs pg' n k = attrs pg n k)"
proof (cases "isInit i")
  case False
  then show ?thesis using wf by (simp add: destroy_def)
next
  case True
  let ?pg2 = "removeAttribute (btn i) ''aria-label'' (removeAttribute (btn i) ''aria-live'' pg)"
  let ?P = "\<lambda>pg'. wf_page pg' \<and> fresh pg' = fresh pg \<and>
           (\<forall>n k. (n = btn i \<longrightarrow> k \<noteq> ''aria-live'' \<and> k \<noteq> ''aria-label'' \<and> k \<noteq> ''class'') \<longrightarrow>
                  attrs pg' n k = attrs pg n k)"
  have P2: "?P ?pg2" using wf by (simp add: removeAttribute_lit)
  have keep: "\<And>pg1 pg'. ?P pg1 \<Longrightarrow> wf_page pg' \<Longrightarrow> tree_only pg1 pg' \<Longrightarrow> ?P pg'"
    by (simp add: tree_only_fields)
  show ?thesis
  proof (cases "inStateClassName i")
    case None
    then have "destroy i pg = Some (Inl TypeError, i, ?pg2)" using True by (simp add: destroy_def)
    then show ?thesis using P2 by simp
  next
    case (Some cn)
    obtain r3 pg3 where c3: "classList_remove (btn i) (str_split CHR '' '' cn) ?pg2 = (r3, pg3)"
      by (cases "classList_remove (btn i) (str_split CHR '' '' cn) ?pg2")
    have P3: "?P pg3"
    proof (cases r3)
      case (Inl e)
      have "pg3 = ?pg2" using c3 unfolding Inl by (rule classList_remove_cases(1))
      then show ?thesis using P2 by simp
    next
      case (Inr u)
      have "pg3 = update_class (btn i) (remove_tokens (str_split CHR '' '' cn) (classes ?pg2 (btn i))) ?pg2"
        using c3 unfolding Inr by (rule classList_remove_cases(2))
      then show ?thesis using P2 by (simp add: update_class_fields update_class_attrs)
    qed
    show ?thesis
    proof (cases r3)
      case (Inl e)
      then have "destroy i pg = Some (Inl e, i, pg3)" using True Some c3 by (simp add: destroy_def)
      then show ?thesis using P3 by simp
    next
      case (Inr u)
      show ?thesis
      proof (cases "wrapper i")
        case None
        then have "destroy i pg = Some (Inl TypeError, i, pg3)"
          using True Some c3 Inr by (simp add: destroy_def)
        then show ?thesis using P3 by simp
      next
        case w: (Some w)
        have wf3: "wf_page pg3" using P3 by simp
        from unwrap_total[OF wf3, of "btn i" w] obtain r4 pg4 where
          u4: "unwrap (btn i) w pg3 = Some (r4, pg4)" and wf4: "wf_page pg4" and t4: "tree_only pg3 pg4"
          by blast
        have P4: "?P pg4" using keep[OF P3 wf4 t4] .
        show ?thesis
        proof (cases r4)
          case e: (Inl e)
          then have "destroy i pg = Some (Inl e, i, pg4)"
            using True Some c3 Inr w u4 by (simp add: destroy_def)
          then show ?thesis using P4 by simp
        next
          case u': (Inr u')
          obtain r5 pg5 where c5: "removeChild (btn i) w pg4 = (r5, pg5)"
            by (cases "removeChild (btn i) w pg4")
          have "wf_page pg5" "tree_only pg4 pg5"
            using removeChild_wf[OF wf4, of "btn i" w] removeChild_tree_only[of pg4 "btn i" w] c5
            by simp_all
          then have P5: "?P pg5" by (rule keep[OF P4])
          show ?thesis
          proof (cases r5)
            case e: (Inl e)
            then have "destroy i pg = Some (Inl e, i, pg5)"
              using True Some c3 Inr w u4 u' c5 by (simp add: destroy_def)
            then show ?thesis using P5 by simp
          next
            case (Inr u'')
            then have "destroy i pg =
                Some (Inr (), i\<lparr>wrapper := None, isInit := False, isInState := False\<rparr>, pg5)"
              using True Some c3 \<open>r3 = Inr u\<close> w u4 u' c5 by (simp add: destroy_def)
            then show ?thesis using P5 by simp
          qed
        qed
      qed
    qed
  qed
qed

lemma destroy_restores:
  assumes wf: "wf_page pg" and ii: "isInit i" and wi: "wrapper i = Some w"
    and pw: "parent pg w = Some (btn i)" and kb: "kids pg (btn i) = pre @ w # post"
    and cn: "inStateClassName i = Some cn"
    and v: "validate_tokens (str_split CHR '' '' cn) = None"
  shows "\<exists>pg'. destroy i pg =
            Some (Inr (), i\<lparr>wrapper := None, isInit := False, isInState := False\<rparr>, pg') \<and>
          wf_page pg' \<and> kids pg' (btn i) = pre @ kids pg w @ post \<and> kids pg' w = [] \<and>
          parent pg' w = None \<and>
          attrs pg' =
            attrs (update_class (btn i)
                     (remove_tokens (str_split CHR '' '' cn) (classes pg (btn i)))
                     (removeAttribute (btn i) ''aria-label''
                        (removeAttribute (btn i) ''aria-live'' pg))) \<and>
          classes pg' =
            (classes pg)(btn i := remove_tokens (str_split CHR '' '' cn) (classes pg (btn i))) \<and>
          events pg' = events pg \<and> fresh pg' = fresh pg \<and> ids pg' = ids pg"
proof -
  let ?b = "btn i"
  let ?pg2 = "removeAttribute ?b ''aria-label'' (removeAttribute ?b ''aria-live'' pg)"
  let ?pg3 = "update_class ?b (remove_tokens (str_split CHR '' '' cn) (classes pg ?b)) ?pg2"
  have c2: "classes ?pg2 = classes pg" by (simp add: removeAttribute_lit)
  have c3: "classList_remove ?b (str_split CHR '' '' cn) ?pg2 = (Inr (), ?pg3)"
    using v by (simp add: classList_remove_def c2)
  have s3: "kids ?pg3 = kids pg" "parent ?pg3 = parent pg" "fresh ?pg3 = fresh pg"
    "events ?pg3 = events pg" "ids ?pg3 = ids pg"
    "classes ?pg3 = (classes pg)(?b := remove_tokens (str_split CHR '' '' cn) (classes pg ?b))"
    by (simp_all add: update_class_fields removeAttribute_lit)
  have wf3: "wf_page ?pg3" using wf by (simp add: removeAttribute_lit)
  have pw3: "parent ?pg3 w = Some ?b" and kb3: "kids ?pg3 ?b = pre @ w # post"
    and kw3: "kids ?pg3 w = kids pg w"
    using pw kb by (simp_all only: s3)
  obtain pg4 where u: "unwrap ?b w ?pg3 = Some (Inr (), pg4)" and wf4: "wf_page pg4"
    and t4: "tree_only ?pg3 pg4" and k4: "kids pg4 w = []"
    and kb4: "kids pg4 ?b = pre @ kids pg w @ w # post" and p4: "parent pg4 w = Some ?b"
    using unwrap_moves[OF wf3 pw3 kb3 kw3] by (elim exE conjE) (rule that; assumption)
  let ?pg5 = "pg4\<lparr>kids := (kids pg4)(?b := remove1 w (kids pg4 ?b)),
                 parent := (parent pg4)(w := None)\<rparr>"
  have rc: "removeChild ?b w pg4 = (Inr (), ?pg5)" using p4 by (simp add: removeChild_def detach_def)
  have wf5: "wf_page ?pg5" using removeChild_wf[OF wf4, of ?b w] by (simp add: rc)
  have d: "distinct (pre @ kids pg w @ w # post)" using wf_distinct[OF wf4, of ?b] kb4 by simp
  then have "remove1 w (pre @ kids pg w @ w # post) = pre @ kids pg w @ post"
    by (simp add: remove1_append)
  then have kb5: "kids ?pg5 ?b = pre @ kids pg w @ post" using kb4 by simp
  have bw: "?b \<noteq> w" using wf_not_own_parent[OF wf, of w] pw by auto
  have kw5: "kids ?pg5 w = []" using k4 bw by simp
  note f = tree_only_fields[OF t4]
  have 1: "destroy i pg =
            Some (Inr (), i\<lparr>wrapper := None, isInit := False, isInState := False\<rparr>, ?pg5)"
    using ii cn wi by (simp add: destroy_def c3 u rc)
  have 2: "attrs ?pg5 = attrs ?pg3"
    "classes ?pg5 = (classes pg)(?b := remove_tokens (str_split CHR '' '' cn) (classes pg ?b))"
    "events ?pg5 = events pg" "fresh ?pg5 = fresh pg" "ids ?pg5 = ids pg" "parent ?pg5 w = None"
    by (simp_all add: f s3)
  show ?thesis using 1 wf5 kb5 kw5 2 by blast
qed

lemma init_fresh:
  assumes wf: "wf_page pg" and b: "btn i < fresh pg" and ni: "\<not> isInit i"
  shows "\<exists>pg'. init i pg =
            Some (Inr (),
                  i\<lparr>wrapper := Some (fresh pg),
                    a11yText := js_or (inStateText i) (attrs pg (btn i) ''data-in-state-text''),
                    inStateClassName := js_or (inStateClass i) (attrs pg (btn i) ''data-in-state-class''),
                    isInit := True\<rparr>, pg') \<and>
          wf_page pg' \<and> fresh pg' = Suc (fresh pg) \<and>
          kids pg' (btn i) = [fresh pg] \<and> kids pg' (fresh pg) = kids pg (btn i) \<and>
          (\<forall>n. n \<noteq> btn i \<longrightarrow> n \<noteq> fresh pg \<longrightarrow> kids pg' n = kids pg n) \<and>
          attrs pg' (btn i) = (attrs pg (btn i))(''aria-live'' \<mapsto> ''polite'') \<and>
          (\<forall>n. n \<noteq> btn i \<longrightarrow> n \<noteq> fresh pg \<longrightarrow> attrs pg' n = attrs pg n) \<and>
          (\<forall>n. n \<noteq> fresh pg \<longrightarrow> classes pg' n = classes pg n) \<and>
          events pg' = events pg \<and> vetoed pg' = vetoed pg \<and> ids pg' = ids pg"
proof -
  let ?w = "fresh pg"
  let ?pg1 = "pg\<lparr>tag := (tag pg)(?w := ''span''), attrs := (attrs pg)(?w := Map.empty),
                  classes := (classes pg)(?w := []), fresh := Suc ?w\<rparr>"
  have sp: "(case TagName ''span'' of TagName t \<Rightarrow> createElement t pg | Elem e \<Rightarrow> (Inr e, pg)) =
            (Inr ?w, ?pg1)"
    by (simp add: createElement_eq[OF wf])
  have fits: "wrapper_fits pg (btn i) (TagName ''span'')" by (simp add: wrapper_fits_def)
  have sa: "snd (set_attributes ?w [] ?pg1) = ?pg1" by simp
  have av: "list_all (\<lambda>(k, v). valid_name k) ([] :: (string \<times> string) list)" by simp
  from wrapInner_core[OF wf b fits sp av] obtain pg2 where
    r: "wrapInner (btn i) (TagName ''span'') [] pg = Some (Inr (btn i, ?w), pg2)"
    and wf2: "wf_page pg2" and t: "tree_only ?pg1 pg2"
    and k1: "kids pg2 (btn i) = [?w]" and k2: "kids pg2 ?w = kids ?pg1 ?w @ kids pg (btn i)"
    and k3: "\<forall>n. n \<noteq> btn i \<longrightarrow> n \<noteq> ?w \<longrightarrow> kids pg2 n = remove1 ?w (kids pg n)"
    unfolding sa by blast
  note f = tree_only_fields[OF t]
  have bw: "btn i \<noteq> ?w" using b by simp
  have kw: "kids pg2 ?w = kids pg (btn i)" using k2 wf_fresh_unused(1)[OF wf, of ?w] by simp
  have ko: "\<forall>n. n \<noteq> btn i \<longrightarrow> n \<noteq> ?w \<longrightarrow> kids pg2 n = kids pg n"
    using k3 wf_fresh_unused(3)[OF wf, of ?w] by (simp add: remove1_idem)
  let ?pg' = "pg2\<lparr>attrs := (attrs pg2)(btn i := (attrs pg2 (btn i))(''aria-live'' \<mapsto> ''polite''))\<rparr>"
  have ga: "getAttribute pg2 (btn i) ''data-in-state-text'' = attrs pg (btn i) ''data-in-state-text''"
    "getAttribute pg2 (btn i) ''data-in-state-class'' = attrs pg (btn i) ''data-in-state-class''"
    using bw by (simp_all add: getAttribute_lit f)
  have 1: "init i pg =
            Some (Inr (),
                  i\<lparr>wrapper := Some ?w,
                    a11yText := js_or (inStateText i) (attrs pg (btn i) ''data-in-state-text''),
                    inStateClassName := js_or (inStateClass i) (attrs pg (btn i) ''data-in-state-class''),
                    isInit := True\<rparr>, ?pg')"
    using ni by (simp add: init_def r ga setAttribute_lit)
  have 2: "wf_page ?pg'" using wf2 by simp
  have 3: "fresh ?pg' = Suc ?w" by (simp add: f)
  have 4: "kids ?pg' (btn i) = [?w]" "kids ?pg' ?w = kids pg (btn i)"
    "\<forall>n. n \<noteq> btn i \<longrightarrow> n \<noteq> ?w \<longrightarrow> kids ?pg' n = kids pg n"
    using k1 kw ko by simp_all
  have 5: "attrs ?pg' (btn i) = (attrs pg (btn i))(''aria-live'' \<mapsto> ''polite'')"
    "\<forall>n. n \<noteq> btn i \<longrightarrow> n \<noteq> ?w \<longrightarrow> attrs ?pg' n = attrs pg n"
    using bw by (simp_all add: f)
  have 6: "\<forall>n. n \<noteq> ?w \<longrightarrow> classes ?pg' n = classes pg n"
    "events ?pg' = events pg" "vetoed ?pg' = vetoed pg" "ids ?pg' = ids pg"
    by (simp_all add: f)
  show ?thesis using 1 2 3 4 5 6 by blast
qed

lemma init_total:
  assumes wf: "wf_page pg" and b: "btn i < fresh pg"
  shows "\<exists>r i' pg'. init i pg = Some (r, i', pg') \<and> wf_page pg' \<and> btn i' = btn i \<and>
           btn i < fresh pg' \<and> (flags_ok i \<longrightarrow> flags_ok i') \<and> (\<not> isInit i \<longrightarrow> r = Inr ()) \<and>
           (r = Inr () \<longrightarrow>
              a11yText i' = js_or (inStateText i) (attrs pg (btn i) ''data-in-state-text'') \<and>
              inStateClassName i' =
                js_or (inStateClass i) (attrs pg (btn i) ''data-in-state-class''))"
proof (cases "isInit i")
  case False
  let ?i' = "i\<lparr>wrapper := Some (fresh pg),
               a11yText := js_or (inStateText i) (attrs pg (btn i) ''data-in-state-text''),
               inStateClassName := js_or (inStateClass i) (attrs pg (btn i) ''data-in-state-class''),
               isInit := True\<rparr>"
  from init_fresh[OF wf b False] obtain pg' where
    r: "init i pg = Some (Inr (), ?i', pg')" and w': "wf_page pg'" and f': "fresh pg' = Suc (fresh pg)"
    by blast
  have fl: "flags_ok ?i'" by (simp add: flags_ok_def)
  show ?thesis
    by (rule exI[where x = "Inr ()"], rule exI[where x = ?i'], rule exI[where x = pg'])
       (use r w' f' b fl in simp)
next
  case True
  obtain r i1 pg1 where
    d: "destroy i pg = Some (r, i1, pg1)" and wf1: "wf_page pg1" and f1: "fresh pg1 = fresh pg"
    and i1: "i1 = i \<or> r = Inr () \<and> i1 = i\<lparr>wrapper := None, isInit := False, isInState := False\<rparr>"
    and n1: "r = Inr () \<longrightarrow> \<not> isInit i1"
    and a1: "\<forall>n k. (n = btn i \<longrightarrow> k \<noteq> ''aria-live'' \<and> k \<noteq> ''aria-label'' \<and> k \<noteq> ''class'') \<longrightarrow>
                  attrs pg1 n k = attrs pg n k"
    using destroy_total[OF wf, of i] by (elim exE conjE) (rule that; assumption)
  show ?thesis
  proof (cases r)
    case (Inl e)
    then have "i1 = i" using i1 by simp
    then have r: "init i pg = Some (Inl e, i, pg1)" using True d Inl by (simp add: init_def)
    show ?thesis
      by (rule exI[where x = "Inl e"], rule exI[where x = i], rule exI[where x = pg1])
         (use r wf1 f1 b True in simp)
  next
    case (Inr u)
    then have ni: "\<not> isInit i1" using n1 by simp
    then have ie: "i1 = i\<lparr>wrapper := None, isInit := False, isInState := False\<rparr>"
      using i1 True by blast
    have b1: "btn i1 < fresh pg1" using b f1 by (simp add: ie)
    have same: "init i pg = init i1 pg1" using True d Inr ni by (simp add: init_def)
    have at: "attrs pg1 (btn i1) ''data-in-state-text'' = attrs pg (btn i) ''data-in-state-text''"
      "attrs pg1 (btn i1) ''data-in-state-class'' = attrs pg (btn i) ''data-in-state-class''"
      using a1 by (simp_all add: ie)
    let ?i' = "i1\<lparr>wrapper := Some (fresh pg1),
                 a11yText := js_or (inStateText i1) (attrs pg1 (btn i1) ''data-in-state-text''),
                 inStateClassName := js_or (inStateClass i1) (attrs pg1 (btn i1) ''data-in-state-class''),
                 isInit := True\<rparr>"
    from init_fresh[OF wf1 b1 ni] obtain pg' where
      r: "init i1 pg1 = Some (Inr (), ?i', pg')" and w': "wf_page pg'"
      and f': "fresh pg' = Suc (fresh pg1)"
      by blast
    have fl: "flags_ok ?i'" by (simp add: flags_ok_def)
    have p: "btn ?i' = btn i" "inStateText i1 = inStateText i" "inStateClass i1 = inStateClass i"
      by (simp_all add: ie)
    show ?thesis
      by (rule exI[where x = "Inr ()"], rule exI[where x = ?i'], rule exI[where x = pg'])
         (use r same w' f' f1 b fl p at in simp)
  qed
qed

lemma init_resolves_configuration:
  assumes "wf_page pg" "btn i < fresh pg"
  shows "\<exists>r i' pg'. init i pg = Some (r, i', pg') \<and> (\<not> isInit i \<longrightarrow> r = Inr ()) \<and>
           (r = Inr () \<longrightarrow>
              a11yText i' =
                (if truthy (inStateText i) then inStateText i
                 else attrs pg (btn i) ''data-in-state-text'') \<and>
              inStateClassName i' =
                (if truthy (inStateClass i) then inStateClass i
                 else attrs pg (btn i) ''data-in-state-class''))"
  using init_total[OF assms] unfolding js_or_def by (elim exE conjE) blast

lemma init_then_destroy_restores:
  assumes wf: "wf_page pg" and b: "btn i < fresh pg" and ni: "\<not> isInit i"
    and cn: "js_or (inStateClass i) (attrs pg (btn i) ''data-in-state-class'') = Some cn"
    and v: "validate_tokens (str_split CHR '' '' cn) = None"
  shows "\<exists>i1 pg1 i2 pg2. init i pg = Some (Inr (), i1, pg1) \<and>
           destroy i1 pg1 = Some (Inr (), i2, pg2) \<and>
           kids pg2 (btn i) = kids pg (btn i) \<and> attrs pg2 (btn i) ''aria-live'' = None \<and>
           \<not> isInit i2 \<and> wrapper i2 = None"
proof -
  let ?w = "fresh pg"
  let ?i1 = "i\<lparr>wrapper := Some ?w,
                a11yText := js_or (inStateText i) (attrs pg (btn i) ''data-in-state-text''),
                inStateClassName := js_or (inStateClass i) (attrs pg (btn i) ''data-in-state-class''),
                isInit := True\<rparr>"
  obtain pg1 where r: "init i pg = Some (Inr (), ?i1, pg1)" and wf1: "wf_page pg1"
    and kb: "kids pg1 (btn i) = [?w]" and kw: "kids pg1 ?w = kids pg (btn i)"
    using init_fresh[OF wf b ni] by (elim exE conjE) (rule that; assumption)
  have pw: "parent pg1 ?w = Some (btn ?i1)" using wf_parent_kids[OF wf1, of ?w "btn i"] kb by simp
  have kb': "kids pg1 (btn ?i1) = [] @ ?w # []" using kb by simp
  have ii: "isInit ?i1" and wi: "wrapper ?i1 = Some ?w" and cn': "inStateClassName ?i1 = Some cn"
    using cn by simp_all
  obtain pg2 where
    d: "destroy ?i1 pg1 =
          Some (Inr (), ?i1\<lparr>wrapper := None, isInit := False, isInState := False\<rparr>, pg2)"
    and k2: "kids pg2 (btn ?i1) = [] @ kids pg1 ?w @ []"
    and a2: "attrs pg2 =
      attrs (update_class (btn ?i1)
               (remove_tokens (str_split CHR '' '' cn) (classes pg1 (btn ?i1)))
               (removeAttribute (btn ?i1) ''aria-label''
                  (removeAttribute (btn ?i1) ''aria-live'' pg1)))"
    using destroy_restores[OF wf1 ii wi pw kb' cn' v]
    by (elim exE conjE) (rule that; assumption)
  have "attrs pg2 (btn i) ''aria-live'' = None"
    unfolding a2 by (simp add: update_class_attrs removeAttribute_lit)
  then show ?thesis using r d k2 kw by simp
qed

lemma enableState_sets:
  assumes "isInit i" "wrapper i = Some w"
    and "\<not> vetoed pg (btn i) ''stateful-btn:enable-before'' (isInState i)"
    and "\<forall>cn. inStateClassName i = Some cn \<longrightarrow> cn \<noteq> [] \<longrightarrow>
           validate_tokens (str_split CHR '' '' cn) = None"
  shows "\<exists>pg'. enableState i pg = (Inr (), i\<lparr>isInState := True\<rparr>, pg') \<and>
           vetoed pg' = vetoed pg \<and>
           events pg' = events pg @ [(btn i, ''stateful-btn:enable-before'', isInState i),
                                     (btn i, ''stateful-btn:enable-after'', True)]"
proof -
  consider (none) "inStateClassName i = None" | (empty) "inStateClassName i = Some []"
    | (some) cn where "inStateClassName i = Some cn" "cn \<noteq> []"
    by (cases "inStateClassName i") auto
  then show ?thesis
  proof cases
    case none
    then show ?thesis using assms(1-3)
      by (simp add: enableState_def dispatchEvent_def setAttribute_lit Let_def split: option.splits)
  next
    case empty
    then show ?thesis using assms(1-3)
      by (simp add: enableState_def dispatchEvent_def setAttribute_lit Let_def split: option.splits)
  next
    case some
    then have "validate_tokens (str_split CHR '' '' cn) = None" using assms(4) by simp
    then show ?thesis using assms(1-3) some
      by (simp add: enableState_def dispatchEvent_def classList_add_def setAttribute_lit
          update_class_fields Let_def split: option.splits)
  qed
qed

lemma disableState_clears:
  assumes "isInit i" "wrapper i = Some w"
    and "\<not> vetoed pg (btn i) ''htz-stateful-btn:disable-before'' (isInState i)"
    and "\<forall>cn. inStateClassName i = Some cn \<longrightarrow> cn \<noteq> [] \<longrightarrow>
           validate_tokens (str_split CHR '' '' cn) = None"
  shows "\<exists>pg'. disableState i pg = (Inr (), i\<lparr>isInState := False\<rparr>, pg') \<and>
           vetoed pg' = vetoed pg \<and>
           events pg' = events pg @ [(btn i, ''htz-stateful-btn:disable-before'', isInState i),
                                     (btn i, ''htz-stateful-btn:disable-after'', False)] \<and>
           (truthy (a11yText i) \<longrightarrow> attrs pg' (btn i) ''aria-label'' = None) \<and>
           (\<forall>cn. inStateClassName i = Some cn \<longrightarrow> cn \<noteq> [] \<longrightarrow>
              set (str_split CHR '' '' cn) \<inter> set (classes pg' (btn i)) = {}) \<and>
           attrs pg' w ''aria-hidden'' = None \<and>
           (\<forall>cn. inStateClassName i = Some cn \<longrightarrow> cn \<noteq> [] \<longrightarrow> class_in_step pg' (btn i))"
proof -
  consider (none) "inStateClassName i = None" | (empty) "inStateClassName i = Some []"
    | (some) cn where "inStateClassName i = Some cn" "cn \<noteq> []"
    by (cases "inStateClassName i") auto
  then show ?thesis
  proof cases
    case none
    then show ?thesis using assms(1-3)
      by (simp add: disableState_def dispatchEvent_def removeAttribute_lit Let_def)
  next
    case empty
    then show ?thesis using assms(1-3)
      by (simp add: disableState_def dispatchEvent_def removeAttribute_lit Let_def)
  next
    case some
    then have "validate_tokens (str_split CHR '' '' cn) = None" using assms(4) by simp
    then show ?thesis using assms(1-3) some
      by (auto simp: disableState_def dispatchEvent_def classList_remove_def removeAttribute_lit
          remove_tokens_eq update_class_def class_in_step_def Let_def)
  qed
qed

lemma disableState_idle:
  assumes "isInit i" "wrapper i = Some w" "\<not> isInState i"
    and "\<not> vetoed pg (btn i) ''htz-stateful-btn:disable-before'' False"
    and "\<forall>cn. inStateClassName i = Some cn \<longrightarrow> cn \<noteq> [] \<longrightarrow>
           validate_tokens (str_split CHR '' '' cn) = None"
    and "truthy (a11yText i) \<longrightarrow> attrs pg (btn i) ''aria-label'' = None"
    and "\<forall>cn. inStateClassName i = Some cn \<longrightarrow> cn \<noteq> [] \<longrightarrow>
           set (str_split CHR '' '' cn) \<inter> set (classes pg (btn i)) = {}"
    and "attrs pg w ''aria-hidden'' = None"
    and "\<forall>cn. inStateClassName i = Some cn \<longrightarrow> cn \<noteq> [] \<longrightarrow> class_in_step pg (btn i)"
  shows "disableState i pg =
           (Inr (), i,
            pg\<lparr>events := events pg @ [(btn i, ''htz-stateful-btn:disable-before'', False),
                                       (btn i, ''htz-stateful-btn:disable-after'', False)]\<rparr>)"
proof -
  let ?pg1 = "pg\<lparr>events := events pg @ [(btn i, ''htz-stateful-btn:disable-before'', False)]\<rparr>"
  have i: "i\<lparr>isInState := False\<rparr> = i" using assms(3) by simp
  have 1: "(if truthy (a11yText i) then removeAttribute (btn i) ''aria-label'' ?pg1 else ?pg1) = ?pg1"
    using assms(6) by (simp add: removeAttribute_absent)
  have 2: "(case inStateClassName i of None \<Rightarrow> (Inr (), ?pg1)
            | Some cn \<Rightarrow> if cn \<noteq> [] then classList_remove (btn i) (str_split CHR '' '' cn) ?pg1
                         else (Inr (), ?pg1)) = (Inr (), ?pg1)"
    using assms(5,7,9) by (auto simp: classList_remove_absent class_in_step_def split: option.splits)
  have 3: "removeAttribute w ''aria-hidden'' ?pg1 = ?pg1"
    using assms(8) by (simp add: removeAttribute_absent)
  show ?thesis
    using assms(1-4) unfolding disableState_def
    by (simp add: dispatchEvent_def 1 2 3 i)
qed

lemma new_inst_flags_ok: "flags_ok (new_inst b t c)"
  by (simp add: flags_ok_def new_inst_def)

lemma enableState_inv:
  assumes "enableState i pg = (r, i', pg')"
  shows "(i' = i \<or> isInit i \<and> i' = i\<lparr>isInState := True\<rparr>) \<and>
         wf_page pg' = wf_page pg \<and> fresh pg' = fresh pg"
  using assms
  by (auto simp: enableState_def dispatchEvent_def classList_add_def setAttribute_lit
      update_class_fields Let_def split: if_splits option.splits prod.splits sum.splits)

lemma disableState_inv:
  assumes "disableState i pg = (r, i', pg')"
  shows "(i' = i \<or> i' = i\<lparr>isInState := False\<rparr>) \<and>
         wf_page pg' = wf_page pg \<and> fresh pg' = fresh pg"
  using assms
  by (auto simp: disableState_def dispatchEvent_def classList_remove_def removeAttribute_lit
      update_class_fields Let_def split: if_splits option.splits prod.splits sum.splits)

lemma toggle_inv:
  assumes "toggle i pg = (r, i', pg')"
  shows "(i' = i \<or> isInit i \<and> i' = i\<lparr>isInState := True\<rparr> \<or> i' = i\<lparr>isInState := False\<rparr>) \<and>
         wf_page pg' = wf_page pg \<and> fresh pg' = fresh pg"
  using assms enableState_inv[of i pg r i' pg'] disableState_inv[of i pg r i' pg']
  by (auto simp: toggle_def split: if_splits)

section \<open>Lemmas about the registry\<close>

lemma statefulBtn_registers:
  assumes wf: "wf_page (page_of wd)" and b: "b < fresh (page_of wd)"
    and n: "next_object wd \<notin> set (allInstances wd)"
  shows "\<exists>i' pg'. statefulBtn b t c wd =
            Some (Inr (next_object wd),
                  wd\<lparr>page_of := pg', objects := (objects wd)(next_object wd := i'),
                     next_object := Suc (next_object wd),
                     allInstances := allInstances wd @ [next_object wd]\<rparr>) \<and>
          btn i' = b \<and> isInit i' \<and> wf_page pg' \<and> b < fresh pg' \<and> ids pg' = ids (page_of wd)"
proof -
  let ?i = "new_inst b t c"
  let ?pg = "page_of wd"
  let ?i' = "?i\<lparr>wrapper := Some (fresh ?pg),
                a11yText := js_or (inStateText ?i) (attrs ?pg (btn ?i) ''data-in-state-text''),
                inStateClassName := js_or (inStateClass ?i) (attrs ?pg (btn ?i) ''data-in-state-class''),
                isInit := True\<rparr>"
  have b': "btn ?i < fresh ?pg" and ni: "\<not> isInit ?i" using b by (simp_all add: new_inst_def)
  obtain pg' where r: "init ?i ?pg = Some (Inr (), ?i', pg')" and wf': "wf_page pg'"
    and f': "fresh pg' = Suc (fresh ?pg)" and d': "ids pg' = ids ?pg"
    using init_fresh[OF wf b' ni] by (elim exE conjE) (rule that; assumption)
  have "statefulBtn b t c wd =
            Some (Inr (next_object wd),
                  wd\<lparr>page_of := pg', objects := (objects wd)(next_object wd := ?i'),
                     next_object := Suc (next_object wd),
                     allInstances := allInstances wd @ [next_object wd]\<rparr>)"
    using n by (simp add: statefulBtn_def r Let_def)
  moreover have "btn ?i' = b" "isInit ?i'" "b < fresh pg'" using b f' by (simp_all add: new_inst_def)
  ultimately show ?thesis using wf' d' by blast
qed

lemma statefulBtn_registry:
  assumes "statefulBtn b t c wd = Some (res, wd')" "next_object wd \<notin> set (allInstances wd)"
  shows "allInstances wd' = allInstances wd \<and> next_object wd' = next_object wd \<or>
         allInstances wd' = allInstances wd @ [next_object wd] \<and>
         next_object wd' = Suc (next_object wd)"
proof -
  let ?i = "new_inst b t c"
  show ?thesis
  proof (cases "init ?i (page_of wd)")
    case None
    then show ?thesis using assms(1) by (simp add: statefulBtn_def)
  next
    case (Some x)
    obtain r i1 pg1 where x: "x = (r, i1, pg1)" by (cases x)
    show ?thesis
    proof (cases r)
      case (Inl e)
      then show ?thesis using assms(1) Some x by (auto simp: statefulBtn_def)
    next
      case (Inr u)
      then show ?thesis using assms Some x by (auto simp: statefulBtn_def Let_def)
    qed
  qed
qed

lemma call_registry:
  assumes "call r m wd = Some (res, wd')"
  shows "allInstances wd' = allInstances wd \<and> next_object wd' = next_object wd"
proof (cases "run m (objects wd r) (page_of wd)")
  case None
  then show ?thesis using assms by (simp add: call_def)
next
  case (Some x)
  obtain q i1 pg1 where "x = (q, i1, pg1)" by (cases x)
  then show ?thesis using assms Some by (auto simp: call_def)
qed

section \<open>The sample data\<close>

lemma ancestors_numeral [simp]:
  "ancestors pg (numeral v) n =
     n # (case parent pg n of None \<Rightarrow> [] | Some p \<Rightarrow> ancestors pg (pred_numeral v) p)"
  by (simp add: numeral_eq_Suc)

lemmas page_ops =
  createElement_def appendChild_def insertBefore_def removeChild_def
  pre_insert_def detach_def insert_before_def firstChild_def getAttribute_lit setAttribute_lit
  removeAttribute_lit classList_add_def classList_remove_def update_class_def dispatchEvent_def
  ascii_whitespace_def js_or_def truthy_def Let_def

lemma demo_page_wf: "wf_page demo_page"
proof -
  have "acyclic (parent_rel demo_page)"
    by (rule acyclicI_order[where f = "\<lambda>n::nat. if n = 0 then 1 else (0::nat)"])
       (auto simp: parent_rel_def demo_page_def split: if_splits)
  moreover have "\<forall>c p. (parent demo_page c = Some p) = (c \<in> set (kids demo_page p))"
    by (auto simp: demo_page_def)
  moreover have "\<forall>p. distinct (kids demo_page p)" by (simp add: demo_page_def)
  moreover have "\<forall>c p. parent demo_page c = Some p \<longrightarrow> c < fresh demo_page \<and> p < fresh demo_page"
    by (auto simp: demo_page_def split: if_splits)
  ultimately show ?thesis unfolding wf_page_def by blast
qed

lemma bare_page_wf: "wf_page bare_page"
  using demo_page_wf by (simp add: bare_page_def)

lemma demo_init: "init (new_inst 0 None None) demo_page = Some (Inr (), ready_inst, ready_page)"
  by (simp add: init_def new_inst_def demo_page_def ready_inst_def ready_page_def wrapInner_def
      move_into.simps page_ops)

lemma bare_init: "init (new_inst 0 None None) bare_page = Some (Inr (), bare_inst, wrapped_bare_page)"
  by (simp add: init_def new_inst_def bare_page_def demo_page_def bare_inst_def
      wrapped_bare_page_def wrapInner_def move_into.simps page_ops)

lemma ready_page_wf: "wf_page ready_page"
proof -
  have "btn (new_inst 0 None None) < fresh demo_page" "\<not> isInit (new_inst 0 None None)"
    by (simp_all add: new_inst_def demo_page_def)
  from init_fresh[OF demo_page_wf this] show ?thesis by (auto simp: demo_init)
qed

lemma vetoing_page_wf: "wf_page vetoing_page"
  by (simp add: vetoing_page_def ready_page_wf)

lemma enableState_writes_class:
  "attrs (snd (snd (enableState ready_inst ready_page))) 0 ''class'' = Some ''busy''"
  "classes (snd (snd (enableState ready_inst ready_page))) 0 = [''busy'']"
  "attrs (snd (snd (and_then (enableState ready_inst ready_page) disableState))) 0 ''class'' = Some []"
  "classes (snd (snd (and_then (enableState ready_inst ready_page) disableState))) 0 = []"
  by (simp_all add: enableState_def disableState_def and_then_def ready_inst_def ready_page_def
      page_ops)

lemma demo_statefulBtn: "statefulBtn 0 None None demo_world = Some (Inr 0, one_world)"
  by (simp add: statefulBtn_def demo_world_def one_world_def demo_init Let_def)

lemma demo_world_reachable: "reachable demo_world"
  by (rule reachable.loaded) (simp_all add: demo_world_def)

lemma one_world_reachable: "reachable one_world"
  using demo_world_reachable demo_statefulBtn by (rule reachable.constructed)

lemma relaunched_world_facts:
  "call 0 Destroy one_world \<noteq> None" "fst (the (call 0 Destroy one_world)) = Inr ()"
  "statefulBtn 0 None None destroyed_world \<noteq> None"
  "fst (the (statefulBtn 0 None None destroyed_world)) = Inr 1"
  "reachable relaunched_world" "allInstances relaunched_world = [0, 1]"
  "btn (objects relaunched_world 0) = 0" "\<not> isInit (objects relaunched_world 0)"
  "btn (objects relaunched_world 1) = 0" "isInit (objects relaunched_world 1)"
  "getElementById (page_of relaunched_world) ''btn'' = Some 0"
proof -
  let ?off = "ready_inst\<lparr>wrapper := None, isInit := False, isInState := False\<rparr>"
  have i: "isInit ready_inst" "wrapper ready_inst = Some 3"
    "inStateClassName ready_inst = Some ''busy''"
    and pw: "parent ready_page 3 = Some (btn ready_inst)"
    and kb: "kids ready_page (btn ready_inst) = [] @ 3 # []"
    by (simp_all add: ready_inst_def ready_page_def)
  have v: "validate_tokens (str_split CHR '' '' ''busy'') = None"
    by (simp add: ascii_whitespace_def)
  obtain pgd where d: "destroy ready_inst ready_page = Some (Inr (), ?off, pgd)"
    and wfd: "wf_page pgd" and fd: "fresh pgd = fresh ready_page" and idd: "ids pgd = ids ready_page"
    using destroy_restores[OF ready_page_wf i(1,2) pw kb i(3) v]
    by (elim exE conjE) (rule that; assumption)
  let ?dw = "one_world\<lparr>page_of := pgd, objects := (objects one_world)(0 := ?off)\<rparr>"
  have c: "call 0 Destroy one_world = Some (Inr (), ?dw)"
    by (simp add: call_def run_def one_world_def d)
  have dw: "destroyed_world = ?dw" by (simp add: destroyed_world_def c)
  have p: "wf_page (page_of ?dw)" "0 < fresh (page_of ?dw)"
    "next_object ?dw \<notin> set (allInstances ?dw)"
    using wfd fd by (simp_all add: one_world_def ready_page_def)
  obtain i' pg' where
    r: "statefulBtn 0 None None ?dw =
          Some (Inr (next_object ?dw),
                ?dw\<lparr>page_of := pg', objects := (objects ?dw)(next_object ?dw := i'),
                   next_object := Suc (next_object ?dw),
                   allInstances := allInstances ?dw @ [next_object ?dw]\<rparr>)"
    and b': "btn i' = 0" and i': "isInit i'" and id': "ids pg' = ids (page_of ?dw)"
    using statefulBtn_registers[OF p, of None None] by (elim exE conjE) (rule that; assumption)
  let ?rw = "?dw\<lparr>page_of := pg', objects := (objects ?dw)(next_object ?dw := i'),
               next_object := Suc (next_object ?dw),
               allInstances := allInstances ?dw @ [next_object ?dw]\<rparr>"
  have rw: "relaunched_world = ?rw" by (simp add: relaunched_world_def dw r)
  have n: "next_object ?dw = 1" by (simp add: one_world_def)
  show "call 0 Destroy one_world \<noteq> None" "fst (the (call 0 Destroy one_world)) = Inr ()"
    by (simp_all add: c)
  show "statefulBtn 0 None None destroyed_world \<noteq> None"
    "fst (the (statefulBtn 0 None None destroyed_world)) = Inr 1"
    unfolding dw by (simp_all add: r n)
  have "reachable ?dw"
    using one_world_reachable _ c by (rule reachable.called) (simp add: one_world_def)
  then have "reachable ?rw" using r by (rule reachable.constructed)
  then show "reachable relaunched_world" by (simp add: rw)
  show "allInstances relaunched_world = [0, 1]" by (simp add: rw one_world_def)
  show "btn (objects relaunched_world 0) = 0" "\<not> isInit (objects relaunched_world 0)"
    by (simp_all add: rw one_world_def ready_inst_def)
  show "btn (objects relaunched_world 1) = 0" "isInit (objects relaunched_world 1)"
    using b' i' by (simp_all add: rw one_world_def)
  show "getElementById (page_of relaunched_world) ''btn'' = Some 0"
    by (simp add: rw getElementById_def id' idd one_world_def ready_page_def)
qed

section \<open>The properties of the specification\<close>

text \<open>
  C1, as the code has it. On a well-formed page, for a container of the page with
  any list of children, a wrapper that fits (a valid tag name, or an element of the
  page that is not the container, one of its ancestors or one of its children) and
  attributes whose names are all valid, \<^verbatim>\<open>wrapInner\<close> returns the pair of the
  container and the wrapper; the wrapper is the element given, or the new element for
  the tag name; its attributes are its earlier ones (none for a new element)
  overwritten by those of \<open>as\<close> in their order, under their lower-cased names, so that
  every one of them can be read back when no two names coincide; the wrapper is the
  container's only child; and its children are its earlier ones (none for a new
  element) followed by all the container's original children in their original order.
\<close>

theorem wrapInner_wraps_children:
  assumes "wf_page pg" "par < fresh pg" "wrapper_fits pg par spec"
    and "list_all (\<lambda>(k, v). valid_name k) as"
  shows "\<exists>w pg'. wrapInner par spec as pg = Some (Inr (par, w), pg') \<and>
           w = (case spec of TagName t \<Rightarrow> fresh pg | Elem e \<Rightarrow> e) \<and>
           attrs pg' w =
             (case spec of TagName t \<Rightarrow> Map.empty | Elem e \<Rightarrow> attrs pg e) ++
             map_of (rev (map (\<lambda>(k, v). (lower_name k, v)) as)) \<and>
           (distinct (map (\<lambda>(k, v). lower_name k) as) \<longrightarrow>
              (\<forall>(k, v) \<in> set as. getAttribute pg' w k = Some v)) \<and>
           kids pg' par = [w] \<and>
           kids pg' w = (case spec of TagName t \<Rightarrow> [] | Elem e \<Rightarrow> kids pg e) @ kids pg par \<and>
           (\<forall>c \<in> set (kids pg par). parent pg' c = Some w) \<and>
           parent pg' w = Some par \<and> wf_page pg'"
proof -
  note wf = assms(1)
  let ?w = "case spec of TagName t \<Rightarrow> fresh pg | Elem e \<Rightarrow> e"
  let ?as = "map (\<lambda>(k, v). (lower_name k, v)) as"
  obtain pg1 where
    sp: "(case spec of TagName t \<Rightarrow> createElement t pg | Elem e \<Rightarrow> (Inr e, pg)) = (Inr ?w, pg1)"
    and k1: "kids pg1 ?w = (case spec of TagName t \<Rightarrow> [] | Elem e \<Rightarrow> kids pg e)"
    and a1: "attrs pg1 ?w = (case spec of TagName t \<Rightarrow> Map.empty | Elem e \<Rightarrow> attrs pg e)"
  proof (cases spec)
    case (TagName t)
    then have vt: "valid_name t" using assms(3) by (simp add: wrapper_fits_def)
    show ?thesis
      using wf_fresh_unused(1)[OF wf, of "fresh pg"]
      by (intro that[of "snd (createElement t pg)"])
         (simp_all add: TagName createElement_eq[OF wf vt])
  next
    case (Elem e)
    show ?thesis by (intro that[of pg]) (simp_all add: Elem)
  qed
  obtain pg' where
    r: "wrapInner par spec as pg = Some (Inr (par, ?w), pg')" and wf': "wf_page pg'"
    and t: "tree_only (snd (set_attributes ?w as pg1)) pg'"
    and kp: "kids pg' par = [?w]" and kw: "kids pg' ?w = kids pg1 ?w @ kids pg par"
    using wrapInner_core[OF assms(1-3) sp assms(4)] by (elim exE conjE) (rule that; assumption)
  have a: "attrs pg' ?w = attrs pg1 ?w ++ map_of (rev ?as)"
    using set_attributes_valid[OF assms(4), of ?w pg1] by (simp add: tree_only_fields(2)[OF t])
  have g: "distinct (map (\<lambda>(k, v). lower_name k) as) \<longrightarrow>
             (\<forall>(k, v) \<in> set as. getAttribute pg' ?w k = Some v)"
  proof (intro impI ballI)
    fix x assume d: "distinct (map (\<lambda>(k, v). lower_name k) as)" and x: "x \<in> set as"
    obtain k v where kv: "x = (k, v)" by (cases x)
    have e: "map fst ?as = map (\<lambda>(k, v). lower_name k) as" by (induction as) auto
    have d': "distinct (map fst ?as)" unfolding e by (rule d)
    have "(lower_name k, v) \<in> set ?as" using x kv by force
    from attrs_hit[OF d' this, of "attrs pg1 ?w"]
    show "case x of (k, v) \<Rightarrow> getAttribute pg' ?w k = Some v"
      by (simp add: kv getAttribute_def a)
  qed
  have pw: "parent pg' ?w = Some par" using wf_parent_kids[OF wf', of ?w par] kp by simp
  have pc: "\<forall>c \<in> set (kids pg par). parent pg' c = Some ?w"
    using wf_parent_kids[OF wf', of _ ?w] kw by simp
  have kw': "kids pg' ?w = (case spec of TagName t \<Rightarrow> [] | Elem e \<Rightarrow> kids pg e) @ kids pg par"
    using kw k1 by simp
  have a': "attrs pg' ?w =
              (case spec of TagName t \<Rightarrow> Map.empty | Elem e \<Rightarrow> attrs pg e) ++ map_of (rev ?as)"
    using a a1 by simp
  show ?thesis
    by (rule exI[where x = ?w], rule exI[where x = pg'])
       (intro conjI r refl a' g kp kw' pc pw wf')
qed

theorem wrapInner_wraps_children_witness:
  "wf_page demo_page \<and> 0 < fresh demo_page \<and> wrapper_fits demo_page 0 (TagName ''DIV'') \<and>
   list_all (\<lambda>(k, v). valid_name k) [(''class'', ''inner''), (''Title'', ''x'')] \<and>
   distinct (map (\<lambda>(k, v). lower_name k) [(''class'', ''inner''), (''Title'', ''x'')]) \<and>
   (\<exists>pg'. wrapInner 0 (TagName ''DIV'') [(''class'', ''inner''), (''Title'', ''x'')] demo_page =
            Some (Inr (0, 3), pg') \<and>
      attrs pg' 3 = [''class'' \<mapsto> ''inner'', ''title'' \<mapsto> ''x''] \<and>
      getAttribute pg' 3 ''class'' = Some ''inner'' \<and> getAttribute pg' 3 ''Title'' = Some ''x'' \<and>
      kids pg' 0 = [3] \<and> kids pg' 3 = [1, 2] \<and>
      parent pg' 1 = Some 3 \<and> parent pg' 2 = Some 3 \<and> parent pg' 3 = Some 0 \<and> wf_page pg')"
proof -
  let ?as = "[(''class'', ''inner''), (''Title'', ''x'')]"
  have b: "0 < fresh demo_page" by (simp add: demo_page_def)
  have f: "wrapper_fits demo_page 0 (TagName ''DIV'')"
    by (simp add: wrapper_fits_def valid_name_def name_start_char_def name_char_def)
  have l: "list_all (\<lambda>(k, v). valid_name k) ?as"
    by (simp add: valid_name_def name_start_char_def name_char_def)
  have ln: "lower_name ''class'' = ''class''" "lower_name ''Title'' = ''title''"
    by (simp_all add: lower_name_def ascii_lower_def)
  have d: "distinct (map (\<lambda>(k, v). lower_name k) ?as)" by (simp add: ln)
  have v: "fresh demo_page = 3" "kids demo_page 0 = [1, 2]" by (simp_all add: demo_page_def)
  obtain w pg' where
    1: "wrapInner 0 (TagName ''DIV'') ?as demo_page = Some (Inr (0, w), pg')"
    and 2: "w = (case TagName ''DIV'' of TagName t \<Rightarrow> fresh demo_page | Elem e \<Rightarrow> e)"
    and 3: "attrs pg' w =
              (case TagName ''DIV'' of TagName t \<Rightarrow> Map.empty | Elem e \<Rightarrow> attrs demo_page e) ++
              map_of (rev (map (\<lambda>(k, v). (lower_name k, v)) ?as))"
    and 4: "distinct (map (\<lambda>(k, v). lower_name k) ?as) \<longrightarrow>
              (\<forall>(k, v) \<in> set ?as. getAttribute pg' w k = Some v)"
    and 5: "kids pg' 0 = [w]"
    and 6: "kids pg' w = (case TagName ''DIV'' of TagName t \<Rightarrow> [] | Elem e \<Rightarrow> kids demo_page e) @
              kids demo_page 0"
    and 7: "\<forall>c \<in> set (kids demo_page 0). parent pg' c = Some w"
    and 8: "parent pg' w = Some 0" and 9: "wf_page pg'"
    using wrapInner_wraps_children[OF demo_page_wf b f l] by (elim exE conjE) (rule that; assumption)
  have w: "w = 3" using 2 v by simp
  have a: "attrs pg' 3 = [''class'' \<mapsto> ''inner'', ''title'' \<mapsto> ''x'']"
    using 3 unfolding w by (simp add: ln fun_eq_iff map_add_def)
  have g: "getAttribute pg' 3 ''class'' = Some ''inner''" "getAttribute pg' 3 ''Title'' = Some ''x''"
    using 4 d unfolding w by simp_all
  have k: "kids pg' 0 = [3]" "kids pg' 3 = [1, 2]" using 5 6 unfolding w v by simp_all
  have p: "parent pg' 1 = Some 3" "parent pg' 2 = Some 3" "parent pg' 3 = Some 0"
    using 7 8 unfolding w v by simp_all
  have r1: "wrapInner 0 (TagName ''DIV'') ?as demo_page = Some (Inr (0, 3), pg')"
    using 1 unfolding w .
  show ?thesis
    by (intro conjI demo_page_wf b f l d exI[where x = pg']) (rule r1 a g k p 9)+
qed

text \<open>
  C1 as stated fails, since not every call wraps the children. With the container
  itself or an ancestor of it as the wrapper, \<^verbatim>\<open>appendChild\<close> throws a
  \<^verbatim>\<open>HierarchyRequestError\<close>; with the empty string as the tag name
  \<^verbatim>\<open>createElement\<close> throws, and with the attribute name \<^verbatim>\<open>a b\<close>
  \<^verbatim>\<open>setAttribute\<close> throws, an \<^verbatim>\<open>InvalidCharacterError\<close>: in all four calls the
  container keeps its children. With the container's only child as the wrapper the
  call returns the pair, but that child is not inside the wrapper, whose children are
  as before.
\<close>

theorem wrapInner_fails_on_unfit_arguments:
  "wrapInner 0 (Elem 0) [] demo_page = Some (Inl HierarchyRequestError, demo_page) \<and>
   wrapInner 3 (Elem 0) [] ready_page = Some (Inl HierarchyRequestError, ready_page) \<and>
   wrapInner 0 (TagName []) [] demo_page = Some (Inl InvalidCharacterError, demo_page) \<and>
   map_option fst (wrapInner 0 (TagName ''div'') [(''a b'', ''x'')] demo_page) =
     Some (Inl InvalidCharacterError) \<and>
   kids (snd (the (wrapInner 0 (TagName ''div'') [(''a b'', ''x'')] demo_page))) 0 = [1, 2] \<and>
   kids demo_page 0 = [1, 2] \<and>
   kids ready_page 0 = [3] \<and>
   map_option fst (wrapInner 0 (Elem 3) [] ready_page) = Some (Inr (0, 3)) \<and>
   kids (snd (the (wrapInner 0 (Elem 3) [] ready_page))) 0 = [3] \<and>
   kids (snd (the (wrapInner 0 (Elem 3) [] ready_page))) 3 = [1, 2]"
proof -
  have n: "\<not> valid_name []" "\<not> valid_name ''a b''" "valid_name ''div''" "lower_name ''div'' = ''div''"
    by (simp_all add: valid_name_def name_start_char_def name_char_def lower_name_def ascii_lower_def)
  have 1: "wrapInner 0 (Elem 0) [] demo_page = Some (Inl HierarchyRequestError, demo_page)"
    by (simp add: wrapInner_def demo_page_def page_ops)
  have 2: "wrapInner 3 (Elem 0) [] ready_page = Some (Inl HierarchyRequestError, ready_page)"
    by (simp add: wrapInner_def ready_page_def page_ops)
  have 3: "wrapInner 0 (TagName []) [] demo_page = Some (Inl InvalidCharacterError, demo_page)"
    by (simp add: wrapInner_def createElement_def n)
  have 4: "wrapInner 0 (TagName ''div'') [(''a b'', ''x'')] demo_page =
             Some (Inl InvalidCharacterError, snd (createElement ''div'' demo_page))"
    by (simp add: wrapInner_def createElement_def setAttribute_def n)
  have 5: "kids (snd (createElement ''div'' demo_page)) 0 = [1, 2]"
    by (simp add: createElement_def demo_page_def n)
  have 6: "kids demo_page 0 = [1, 2]" "kids ready_page 0 = [3]"
    by (simp_all add: demo_page_def ready_page_def)
  have 7: "wrapInner 0 (Elem 3) [] ready_page =
             Some (Inr (0, 3), snd (appendChild 0 3 ready_page))"
    by (simp add: wrapInner_def ready_page_def move_into.simps page_ops)
  have 8: "kids (snd (appendChild 0 3 ready_page)) 0 = [3]"
    "kids (snd (appendChild 0 3 ready_page)) 3 = [1, 2]"
    by (simp_all add: ready_page_def page_ops)
  show ?thesis using 1 2 3 4 5 6 7 8 by simp
qed

text \<open>
  C2, evaluated on a button without class names. \<^verbatim>\<open>statefulBtn(btn)\<close> on the bare
  sample button wraps its two children; \<^verbatim>\<open>destroy\<close> then throws a \<^verbatim>\<open>TypeError\<close>
  and leaves the instance initialized and the wrapper, with the children inside it,
  in place: the children of the button are not restored.
\<close>

theorem destroy_after_init_throws_on_bare_button:
  "init (new_inst 0 None None) bare_page = Some (Inr (), bare_inst, wrapped_bare_page) \<and>
   destroy bare_inst wrapped_bare_page =
     Some (Inl TypeError, bare_inst,
           removeAttribute 0 ''aria-label'' (removeAttribute 0 ''aria-live'' wrapped_bare_page)) \<and>
   isInit bare_inst \<and> kids bare_page 0 = [1, 2] \<and>
   kids (removeAttribute 0 ''aria-label'' (removeAttribute 0 ''aria-live'' wrapped_bare_page)) 0 = [3]"
  by (simp add: bare_init destroy_def bare_inst_def)
     (simp add: wrapped_bare_page_def bare_page_def demo_page_def removeAttribute_def)

text \<open>
  C3. On a well-formed page that holds the button, every public operation of an
  instance returns (the loops of \<^verbatim>\<open>init\<close> and \<^verbatim>\<open>destroy\<close> end) and, whether it
  returned normally or threw, leaves both invariants of the flags intact: the wrapper
  is set exactly when the instance is initialized, and an active instance is
  initialized. The page stays well formed and keeps the button, so the statement
  carries over to any sequence of calls.
\<close>

theorem flags_invariants_preserved:
  assumes "wf_page pg" "btn i < fresh pg" "flags_ok i"
  shows "(\<exists>r i' pg'. init i pg = Some (r, i', pg') \<and>
            flags_ok i' \<and> wf_page pg' \<and> btn i' < fresh pg') \<and>
         (\<exists>r i' pg'. destroy i pg = Some (r, i', pg') \<and>
            flags_ok i' \<and> wf_page pg' \<and> btn i' < fresh pg') \<and>
         (\<exists>r i' pg'. enableState i pg = (r, i', pg') \<and>
            flags_ok i' \<and> wf_page pg' \<and> btn i' < fresh pg') \<and>
         (\<exists>r i' pg'. disableState i pg = (r, i', pg') \<and>
            flags_ok i' \<and> wf_page pg' \<and> btn i' < fresh pg') \<and>
         (\<exists>r i' pg'. toggle i pg = (r, i', pg') \<and>
            flags_ok i' \<and> wf_page pg' \<and> btn i' < fresh pg') \<and>
         flags_ok (set_a11yText v i) \<and> flags_ok (set_stateClass v i)"
proof -
  note wf = assms(1) and b = assms(2) and fl = assms(3)
  have 1: "\<exists>r i' pg'. init i pg = Some (r, i', pg') \<and>
            flags_ok i' \<and> wf_page pg' \<and> btn i' < fresh pg'"
    using init_total[OF wf b] fl by (elim exE conjE) auto
  obtain r i1 pg1 where
    d: "destroy i pg = Some (r, i1, pg1)" and wf1: "wf_page pg1" and f1: "fresh pg1 = fresh pg"
    and i1: "i1 = i \<or> r = Inr () \<and> i1 = i\<lparr>wrapper := None, isInit := False, isInState := False\<rparr>"
    using destroy_total[OF wf, of i] by (elim exE conjE) (rule that; assumption)
  have "flags_ok i1 \<and> btn i1 < fresh pg1" using i1 fl b f1 by (auto simp: flags_ok_def)
  then have 2: "\<exists>r i' pg'. destroy i pg = Some (r, i', pg') \<and>
            flags_ok i' \<and> wf_page pg' \<and> btn i' < fresh pg'"
    using d wf1 by blast
  obtain r3 i3 pg3 where e: "enableState i pg = (r3, i3, pg3)" by (cases "enableState i pg")
  have "flags_ok i3 \<and> wf_page pg3 \<and> btn i3 < fresh pg3"
    using enableState_inv[OF e] wf b fl by (auto simp: flags_ok_def)
  then have 3: "\<exists>r i' pg'. enableState i pg = (r, i', pg') \<and>
            flags_ok i' \<and> wf_page pg' \<and> btn i' < fresh pg'"
    using e by blast
  obtain r4 i4 pg4 where e4: "disableState i pg = (r4, i4, pg4)" by (cases "disableState i pg")
  have "flags_ok i4 \<and> wf_page pg4 \<and> btn i4 < fresh pg4"
    using disableState_inv[OF e4] wf b fl by (auto simp: flags_ok_def)
  then have 4: "\<exists>r i' pg'. disableState i pg = (r, i', pg') \<and>
            flags_ok i' \<and> wf_page pg' \<and> btn i' < fresh pg'"
    using e4 by blast
  obtain r5 i5 pg5 where e5: "toggle i pg = (r5, i5, pg5)" by (cases "toggle i pg")
  have "flags_ok i5 \<and> wf_page pg5 \<and> btn i5 < fresh pg5"
    using toggle_inv[OF e5] wf b fl by (auto simp: flags_ok_def)
  then have 5: "\<exists>r i' pg'. toggle i pg = (r, i', pg') \<and>
            flags_ok i' \<and> wf_page pg' \<and> btn i' < fresh pg'"
    using e5 by blast
  have 6: "flags_ok (set_a11yText v i)" "flags_ok (set_stateClass v i)"
    using fl by (simp_all add: flags_ok_def set_a11yText_def set_stateClass_def)
  show ?thesis using 1 2 3 4 5 6 by (intro conjI)
qed

theorem flags_invariants_preserved_witness:
  "wf_page ready_page \<and> btn ready_inst < fresh ready_page \<and> flags_ok ready_inst \<and>
   (\<exists>r i' pg'. init ready_inst ready_page = Some (r, i', pg') \<and>
      flags_ok i' \<and> wf_page pg' \<and> btn i' < fresh pg') \<and>
   (\<exists>r i' pg'. destroy ready_inst ready_page = Some (r, i', pg') \<and>
      flags_ok i' \<and> wf_page pg' \<and> btn i' < fresh pg') \<and>
   (\<exists>r i' pg'. enableState ready_inst ready_page = (r, i', pg') \<and>
      flags_ok i' \<and> wf_page pg' \<and> btn i' < fresh pg') \<and>
   (\<exists>r i' pg'. disableState ready_inst ready_page = (r, i', pg') \<and>
      flags_ok i' \<and> wf_page pg' \<and> btn i' < fresh pg') \<and>
   (\<exists>r i' pg'. toggle ready_inst ready_page = (r, i', pg') \<and>
      flags_ok i' \<and> wf_page pg' \<and> btn i' < fresh pg') \<and>
   flags_ok (set_a11yText (Some ''Busy'') ready_inst) \<and>
   flags_ok (set_stateClass (Some ''Busy'') ready_inst)"
proof -
  have b: "btn ready_inst < fresh ready_page" by (simp add: ready_inst_def ready_page_def)
  have f: "flags_ok ready_inst" by (simp add: ready_inst_def flags_ok_def)
  show ?thesis
    using flags_invariants_preserved[OF ready_page_wf b f, where v = "Some ''Busy''"]
      ready_page_wf b f
    by (intro conjI) (elim conjE, assumption)+
qed

text \<open>
  C4. When an observer vetoes the before event of an initialized instance,
  \<^verbatim>\<open>enableState\<close> returns with the variables unchanged and the page unchanged but for
  the log, which gains the before event only: no flag, attribute or class changes and
  no after event. The same holds for \<^verbatim>\<open>disableState\<close>.
\<close>

theorem vetoed_transition_is_skipped:
  assumes "isInit i"
  shows "(vetoed pg (btn i) ''stateful-btn:enable-before'' (isInState i) \<longrightarrow>
            enableState i pg =
              (Inr (), i,
               pg\<lparr>events := events pg @ [(btn i, ''stateful-btn:enable-before'', isInState i)]\<rparr>)) \<and>
         (vetoed pg (btn i) ''htz-stateful-btn:disable-before'' (isInState i) \<longrightarrow>
            disableState i pg =
              (Inr (), i,
               pg\<lparr>events := events pg @ [(btn i, ''htz-stateful-btn:disable-before'', isInState i)]\<rparr>))"
  using assms by (simp add: enableState_def disableState_def dispatchEvent_def)

theorem vetoed_transition_is_skipped_witness:
  "isInit ready_inst \<and>
   vetoed vetoing_page (btn ready_inst) ''stateful-btn:enable-before'' (isInState ready_inst) \<and>
   enableState ready_inst vetoing_page =
     (Inr (), ready_inst,
      vetoing_page\<lparr>events := events vetoing_page @ [(0, ''stateful-btn:enable-before'', False)]\<rparr>) \<and>
   vetoed vetoing_page (btn ready_inst) ''htz-stateful-btn:disable-before'' (isInState ready_inst) \<and>
   disableState ready_inst vetoing_page =
     (Inr (), ready_inst,
      vetoing_page\<lparr>events := events vetoing_page @ [(0, ''htz-stateful-btn:disable-before'', False)]\<rparr>)"
proof -
  have a: "isInit ready_inst" by (simp add: ready_inst_def)
  have b: "vetoed vetoing_page (btn ready_inst) ''stateful-btn:enable-before'' (isInState ready_inst)"
    by (simp add: vetoing_page_def)
  have c: "vetoed vetoing_page (btn ready_inst) ''htz-stateful-btn:disable-before'' (isInState ready_inst)"
    by (simp add: vetoing_page_def)
  have d: "btn ready_inst = 0" "isInState ready_inst = False" by (simp_all add: ready_inst_def)
  note t = vetoed_transition_is_skipped[OF a, of vetoing_page]
  from t b have "enableState ready_inst vetoing_page =
     (Inr (), ready_inst,
      vetoing_page\<lparr>events := events vetoing_page @
        [(btn ready_inst, ''stateful-btn:enable-before'', isInState ready_inst)]\<rparr>)" by blast
  moreover from t c have "disableState ready_inst vetoing_page =
     (Inr (), ready_inst,
      vetoing_page\<lparr>events := events vetoing_page @
        [(btn ready_inst, ''htz-stateful-btn:disable-before'', isInState ready_inst)]\<rparr>)" by blast
  ultimately show ?thesis using a b c unfolding d by blast
qed

text \<open>
  C5, as the code has it. On an initialized instance with a wrapper, no vetoing
  observer and class names that split into well-formed tokens, \<^verbatim>\<open>enableState\<close> and
  then \<^verbatim>\<open>disableState\<close> both return normally and leave the active flag false (the
  variables are the original ones when the instance was inactive); the label the
  enable set is gone, no token of the class names is left on the button, and the
  wrapper is no longer hidden. A second \<^verbatim>\<open>disableState\<close> changes neither the
  variables nor the page's tree, attributes and classes, but it does dispatch
  \<^verbatim>\<open>disable-before\<close> and \<^verbatim>\<open>disable-after\<close> once more.
\<close>

theorem enable_then_disable_clears:
  assumes "isInit i" "wrapper i = Some w"
    and "\<forall>name d. \<not> vetoed pg (btn i) name d"
    and "\<forall>cn. inStateClassName i = Some cn \<longrightarrow> cn \<noteq> [] \<longrightarrow>
           validate_tokens (str_split CHR '' '' cn) = None"
  shows "\<exists>pg1 pg2.
           enableState i pg = (Inr (), i\<lparr>isInState := True\<rparr>, pg1) \<and>
           disableState (i\<lparr>isInState := True\<rparr>) pg1 = (Inr (), i\<lparr>isInState := False\<rparr>, pg2) \<and>
           (\<not> isInState i \<longrightarrow> i\<lparr>isInState := False\<rparr> = i) \<and>
           (truthy (a11yText i) \<longrightarrow> attrs pg2 (btn i) ''aria-label'' = None) \<and>
           (\<forall>cn. inStateClassName i = Some cn \<longrightarrow> cn \<noteq> [] \<longrightarrow>
              set (str_split CHR '' '' cn) \<inter> set (classes pg2 (btn i)) = {}) \<and>
           attrs pg2 w ''aria-hidden'' = None \<and>
           disableState (i\<lparr>isInState := False\<rparr>) pg2 =
             (Inr (), i\<lparr>isInState := False\<rparr>,
              pg2\<lparr>events := events pg2 @ [(btn i, ''htz-stateful-btn:disable-before'', False),
                                           (btn i, ''htz-stateful-btn:disable-after'', False)]\<rparr>)"
proof -
  let ?on = "i\<lparr>isInState := True\<rparr>" and ?off = "i\<lparr>isInState := False\<rparr>"
  have nv: "\<And>name d. \<not> vetoed pg (btn i) name d" using assms(3) by simp
  from enableState_sets[OF assms(1,2) nv assms(4)] obtain pg1 where
    e: "enableState i pg = (Inr (), ?on, pg1)" and v1: "vetoed pg1 = vetoed pg"
    by blast
  have "\<exists>pg'. disableState ?on pg1 = (Inr (), ?on\<lparr>isInState := False\<rparr>, pg') \<and>
           vetoed pg' = vetoed pg1 \<and>
           events pg' = events pg1 @ [(btn ?on, ''htz-stateful-btn:disable-before'', isInState ?on),
                                      (btn ?on, ''htz-stateful-btn:disable-after'', False)] \<and>
           (truthy (a11yText ?on) \<longrightarrow> attrs pg' (btn ?on) ''aria-label'' = None) \<and>
           (\<forall>cn. inStateClassName ?on = Some cn \<longrightarrow> cn \<noteq> [] \<longrightarrow>
              set (str_split CHR '' '' cn) \<inter> set (classes pg' (btn ?on)) = {}) \<and>
           attrs pg' w ''aria-hidden'' = None \<and>
           (\<forall>cn. inStateClassName ?on = Some cn \<longrightarrow> cn \<noteq> [] \<longrightarrow> class_in_step pg' (btn ?on))"
    using assms(1,2,4) nv v1 by (intro disableState_clears) simp_all
  then obtain pg2 where
    d: "disableState ?on pg1 = (Inr (), ?off, pg2)" and v2: "vetoed pg2 = vetoed pg"
    and l: "truthy (a11yText i) \<longrightarrow> attrs pg2 (btn i) ''aria-label'' = None"
    and c: "\<forall>cn. inStateClassName i = Some cn \<longrightarrow> cn \<noteq> [] \<longrightarrow>
              set (str_split CHR '' '' cn) \<inter> set (classes pg2 (btn i)) = {}"
    and h: "attrs pg2 w ''aria-hidden'' = None"
    and s: "\<forall>cn. inStateClassName i = Some cn \<longrightarrow> cn \<noteq> [] \<longrightarrow> class_in_step pg2 (btn i)"
    using v1 by auto
  have "disableState ?off pg2 =
          (Inr (), ?off,
           pg2\<lparr>events := events pg2 @ [(btn ?off, ''htz-stateful-btn:disable-before'', False),
                                        (btn ?off, ''htz-stateful-btn:disable-after'', False)]\<rparr>)"
    using assms(1,2,4) nv v2 l c h s by (intro disableState_idle[where w = w]) simp_all
  then have again: "disableState ?off pg2 =
          (Inr (), ?off,
           pg2\<lparr>events := events pg2 @ [(btn i, ''htz-stateful-btn:disable-before'', False),
                                        (btn i, ''htz-stateful-btn:disable-after'', False)]\<rparr>)"
    by simp
  have same: "\<not> isInState i \<longrightarrow> ?off = i" by simp
  show ?thesis using e d same l c h again by blast
qed

theorem enable_then_disable_clears_witness:
  "isInit ready_inst \<and> wrapper ready_inst = Some 3 \<and>
   (\<forall>name d. \<not> vetoed ready_page (btn ready_inst) name d) \<and>
   validate_tokens (str_split CHR '' '' ''busy'') = None \<and>
   (\<exists>pg1 pg2.
      enableState ready_inst ready_page = (Inr (), ready_inst\<lparr>isInState := True\<rparr>, pg1) \<and>
      disableState (ready_inst\<lparr>isInState := True\<rparr>) pg1 = (Inr (), ready_inst, pg2) \<and>
      attrs pg2 0 ''aria-label'' = None \<and>
      ''busy'' \<notin> set (classes pg2 0) \<and>
      attrs pg2 3 ''aria-hidden'' = None \<and>
      disableState ready_inst pg2 =
        (Inr (), ready_inst,
         pg2\<lparr>events := events pg2 @ [(0, ''htz-stateful-btn:disable-before'', False),
                                      (0, ''htz-stateful-btn:disable-after'', False)]\<rparr>))"
proof -
  have a: "isInit ready_inst" and b: "wrapper ready_inst = Some 3"
    and c: "\<forall>name d. \<not> vetoed ready_page (btn ready_inst) name d"
    by (simp_all add: ready_inst_def ready_page_def)
  have sp: "str_split CHR '' '' ''busy'' = [''busy'']" by simp
  have v: "validate_tokens (str_split CHR '' '' ''busy'') = None"
    by (simp add: ascii_whitespace_def)
  have cn: "inStateClassName ready_inst = Some ''busy''" by (simp add: ready_inst_def)
  have d: "\<forall>cn. inStateClassName ready_inst = Some cn \<longrightarrow> cn \<noteq> [] \<longrightarrow>
             validate_tokens (str_split CHR '' '' cn) = None"
    using v cn by simp
  have off: "ready_inst\<lparr>isInState := False\<rparr> = ready_inst" by (simp add: ready_inst_def)
  have t: "truthy (a11yText ready_inst)" and z: "btn ready_inst = 0"
    by (simp_all add: ready_inst_def truthy_def)
  from enable_then_disable_clears[OF a b c d] obtain pg1 pg2 where
    1: "enableState ready_inst ready_page = (Inr (), ready_inst\<lparr>isInState := True\<rparr>, pg1)"
    and 2: "disableState (ready_inst\<lparr>isInState := True\<rparr>) pg1 =
              (Inr (), ready_inst\<lparr>isInState := False\<rparr>, pg2)"
    and 3: "truthy (a11yText ready_inst) \<longrightarrow> attrs pg2 (btn ready_inst) ''aria-label'' = None"
    and 4: "\<forall>cn. inStateClassName ready_inst = Some cn \<longrightarrow> cn \<noteq> [] \<longrightarrow>
              set (str_split CHR '' '' cn) \<inter> set (classes pg2 (btn ready_inst)) = {}"
    and 5: "attrs pg2 3 ''aria-hidden'' = None"
    and 6: "disableState (ready_inst\<lparr>isInState := False\<rparr>) pg2 =
             (Inr (), ready_inst\<lparr>isInState := False\<rparr>,
              pg2\<lparr>events := events pg2 @
                [(btn ready_inst, ''htz-stateful-btn:disable-before'', False),
                 (btn ready_inst, ''htz-stateful-btn:disable-after'', False)]\<rparr>)"
    by blast
  have l3: "attrs pg2 0 ''aria-label'' = None" using 3 t z by simp
  have "set (str_split CHR '' '' ''busy'') \<inter> set (classes pg2 (btn ready_inst)) = {}"
    using 4 cn by simp
  then have l4: "''busy'' \<notin> set (classes pg2 0)" unfolding sp z by simp
  show ?thesis using a b c v 1 2[unfolded off] l3 l4 5 6[unfolded off z] by blast
qed

text \<open>
  C5 as stated fails: on the initialized, inactive, unobserved sample instance the
  second of two \<^verbatim>\<open>disableState\<close> calls in a row is not silent. The log holds the
  pair of disable events twice.
\<close>

theorem second_disable_fires_again:
  "events (snd (snd (and_then (disableState ready_inst ready_page) disableState))) =
     [(0, ''htz-stateful-btn:disable-before'', False),
      (0, ''htz-stateful-btn:disable-after'', False),
      (0, ''htz-stateful-btn:disable-before'', False),
      (0, ''htz-stateful-btn:disable-after'', False)]"
  by (simp add: and_then_def disableState_def ready_inst_def ready_page_def page_ops)



text \<open>
  C7, evaluated with an empty explicit argument. \<^verbatim>\<open>statefulBtn(btn, '')\<close> on the
  sample button, whose \<^verbatim>\<open>data-in-state-text\<close> is \<^verbatim>\<open>Loading\<close>: \<^verbatim>\<open>init\<close> returns
  normally and the label text is the attribute's \<^verbatim>\<open>Loading\<close>, not the argument.
  The argument was supplied, and the documentation of \<^verbatim>\<open>statefulBtn\<close> gives the
  argument precedence whenever both are provided.
\<close>

theorem empty_argument_yields_to_attribute:
  "init (new_inst 0 (Some []) None) demo_page =
     Some (Inr (), ready_inst\<lparr>inStateText := Some []\<rparr>, ready_page) \<and>
   inStateText (ready_inst\<lparr>inStateText := Some []\<rparr>) = Some [] \<and>
   a11yText (ready_inst\<lparr>inStateText := Some []\<rparr>) = Some ''Loading''"
  by (simp add: init_def new_inst_def demo_page_def ready_inst_def ready_page_def wrapInner_def
      move_into.simps page_ops)

text \<open>
  C8, evaluated. \<^verbatim>\<open>enableState\<close> and then \<^verbatim>\<open>disableState\<close> on the sample instance
  dispatch four events on the button, each with the flag of that moment; the two
  enable events are named \<^verbatim>\<open>stateful-btn:...\<close>, the two disable events
  \<^verbatim>\<open>htz-stateful-btn:...\<close>.
\<close>

theorem lifecycle_events_dispatched:
  "events (snd (snd (and_then (enableState ready_inst ready_page) disableState))) =
     [(0, ''stateful-btn:enable-before'', False),
      (0, ''stateful-btn:enable-after'', True),
      (0, ''htz-stateful-btn:disable-before'', True),
      (0, ''htz-stateful-btn:disable-after'', False)]"
  by (simp add: and_then_def enableState_def disableState_def ready_inst_def ready_page_def page_ops)

text \<open>
  C9, as the code has it. In every state that constructor and method calls lead to,
  the registry lists every instance object made so far exactly once. It does not
  keep the targets apart: every \<^verbatim>\<open>statefulBtn\<close> call that returns adds its new
  object, whatever its button.
\<close>

theorem registry_lists_each_instance_once:
  assumes "reachable wd"
  shows "distinct (allInstances wd) \<and> set (allInstances wd) = {..<next_object wd}"
  using assms
proof (induction rule: reachable.induct)
  case (loaded wd)
  then show ?case by simp
next
  case (constructed wd b t c res wd')
  have n: "next_object wd \<notin> set (allInstances wd)" using constructed.IH by simp
  from statefulBtn_registry[OF constructed.hyps(2) n] show ?case
  proof
    assume "allInstances wd' = allInstances wd \<and> next_object wd' = next_object wd"
    then show ?thesis using constructed.IH by simp
  next
    assume "allInstances wd' = allInstances wd @ [next_object wd] \<and>
            next_object wd' = Suc (next_object wd)"
    then show ?thesis using constructed.IH n by (auto simp: lessThan_Suc)
  qed
next
  case (called wd r m res wd')
  from call_registry[OF called.hyps(3)] show ?case using called.IH by simp
qed

theorem registry_lists_each_instance_once_witness:
  "reachable one_world \<and> distinct (allInstances one_world) \<and>
   set (allInstances one_world) = {..<next_object one_world} \<and> allInstances one_world = [0]"
  using registry_lists_each_instance_once[OF one_world_reachable] one_world_reachable
  by (simp add: one_world_def)

text \<open>
  C9 as stated fails: two calls \<^verbatim>\<open>statefulBtn(btn)\<close> on the same button lead to a
  state whose registry holds two instances, objects 0 and 1, with that button as
  their \<^verbatim>\<open>btn\<close>.
\<close>

theorem same_button_registered_twice:
  "statefulBtn 0 None None demo_world = Some (Inr 0, one_world) \<and>
   fst (the (statefulBtn 0 None None one_world)) = Inr 1 \<and>
   reachable (snd (the (statefulBtn 0 None None one_world))) \<and>
   allInstances (snd (the (statefulBtn 0 None None one_world))) = [0, 1] \<and>
   btn (objects (snd (the (statefulBtn 0 None None one_world))) 0) = 0 \<and>
   btn (objects (snd (the (statefulBtn 0 None None one_world))) 1) = 0"
proof -
  have wf: "wf_page (page_of one_world)" and b: "0 < fresh (page_of one_world)"
    and n: "next_object one_world \<notin> set (allInstances one_world)"
    using ready_page_wf by (simp_all add: one_world_def ready_page_def)
  obtain i' pg' where
    r: "statefulBtn 0 None None one_world =
          Some (Inr (next_object one_world),
                one_world\<lparr>page_of := pg', objects := (objects one_world)(next_object one_world := i'),
                   next_object := Suc (next_object one_world),
                   allInstances := allInstances one_world @ [next_object one_world]\<rparr>)"
    and i': "btn i' = 0"
    using statefulBtn_registers[OF wf b n, of None None] by (elim exE conjE) (rule that; assumption)
  let ?wd2 = "one_world\<lparr>page_of := pg', objects := (objects one_world)(next_object one_world := i'),
                   next_object := Suc (next_object one_world),
                   allInstances := allInstances one_world @ [next_object one_world]\<rparr>"
  have v: "next_object one_world = 1" "allInstances one_world = [0]"
    "btn (objects one_world 0) = 0"
    by (simp_all add: one_world_def ready_inst_def)
  have s: "statefulBtn 0 None None one_world = Some (Inr 1, ?wd2)" using r v by simp
  have "reachable ?wd2" using one_world_reachable s by (rule reachable.constructed)
  moreover have "allInstances ?wd2 = [0, 1]" "btn (objects ?wd2 0) = 0" "btn (objects ?wd2 1) = 0"
    using v i' by simp_all
  ultimately show ?thesis using demo_statefulBtn by (simp add: s)
qed

text \<open>
  C10, as the code has it. \<^verbatim>\<open>getInstance\<close> takes an element or an id, which it
  resolves with \<^verbatim>\<open>document.getElementById\<close>. When some registered instance has the
  resolved element as its \<^verbatim>\<open>btn\<close>, the answer is the first of them in the registry,
  the one registered earliest: no instance before it in the list has that \<^verbatim>\<open>btn\<close>.
  When none has (the element was never registered, or the id names no element), the
  answer is \<^verbatim>\<open>undefined\<close>, and nothing is thrown.
\<close>

theorem getInstance_lookup:
  assumes "elem = (case k of Id s \<Rightarrow> getElementById (page_of wd) s | Element n \<Rightarrow> Some n)"
  shows "((\<exists>r \<in> set (allInstances wd). Some (btn (objects wd r)) = elem) \<longrightarrow>
            (\<exists>pre r post. allInstances wd = pre @ r # post \<and> getInstance k wd = Some r \<and>
                 Some (btn (objects wd r)) = elem \<and>
                 (\<forall>q \<in> set pre. Some (btn (objects wd q)) \<noteq> elem))) \<and>
         ((\<forall>r \<in> set (allInstances wd). Some (btn (objects wd r)) \<noteq> elem) \<longrightarrow>
            getInstance k wd = None)"
proof -
  let ?P = "\<lambda>item. Some (btn (objects wd item)) = elem"
  let ?m = "filter ?P (allInstances wd)"
  have g: "getInstance k wd = (case ?m of [] \<Rightarrow> None | instance # _ \<Rightarrow> Some instance)"
    using assms by (simp add: getInstance_def)
  show ?thesis
  proof (cases ?m)
    case Nil
    then have "\<forall>r \<in> set (allInstances wd). Some (btn (objects wd r)) \<noteq> elem"
      by (simp add: filter_empty_conv)
    then show ?thesis using g Nil by simp
  next
    case (Cons r rs)
    then obtain pre post where s: "allInstances wd = pre @ r # post"
      and n: "\<forall>q \<in> set pre. \<not> ?P q" and m: "?P r"
      unfolding filter_eq_Cons_iff by (elim exE conjE) (rule that; assumption)
    have "getInstance k wd = Some r" using g Cons by simp
    then have "\<exists>pre r post. allInstances wd = pre @ r # post \<and> getInstance k wd = Some r \<and>
                 Some (btn (objects wd r)) = elem \<and>
                 (\<forall>q \<in> set pre. Some (btn (objects wd q)) \<noteq> elem)"
      using s n m by blast
    moreover have "\<not> (\<forall>r \<in> set (allInstances wd). Some (btn (objects wd r)) \<noteq> elem)"
      using s m by auto
    ultimately show ?thesis by blast
  qed
qed

theorem getInstance_lookup_witness:
  "allInstances relaunched_world = [0, 1] \<and>
   btn (objects relaunched_world 0) = 0 \<and> btn (objects relaunched_world 1) = 0 \<and>
   getInstance (Element 0) relaunched_world = Some 0 \<and>
   getInstance (Id ''btn'') relaunched_world = Some 0 \<and>
   getInstance (Id ''other'') one_world = None \<and> getInstance (Element 1) one_world = None"
proof -
  note f = relaunched_world_facts
  have v: "allInstances one_world = [0]" "btn (objects one_world 0) = 0"
    "getElementById (page_of one_world) ''other'' = None"
    by (simp_all add: one_world_def ready_inst_def ready_page_def getElementById_def)
  have first: "getInstance k relaunched_world = Some 0"
    if e: "Some 0 = (case k of Id s \<Rightarrow> getElementById (page_of relaunched_world) s
                     | Element n \<Rightarrow> Some n)" for k
  proof -
    have ex: "\<exists>r \<in> set (allInstances relaunched_world).
            Some (btn (objects relaunched_world r)) = Some 0"
      using f(6,7) by simp
    obtain pre r post where s: "allInstances relaunched_world = pre @ r # post"
      and g: "getInstance k relaunched_world = Some r"
      and n: "\<forall>q \<in> set pre. Some (btn (objects relaunched_world q)) \<noteq> Some 0"
      using getInstance_lookup[OF e, THEN conjunct1, THEN mp, OF ex]
      by (elim exE conjE) (rule that; assumption)
    have "pre = []"
    proof (cases pre)
      case Nil
      then show ?thesis .
    next
      case (Cons x xs)
      then have "x = 0" using s f(6) by simp
      then have "0 \<in> set pre" using Cons by simp
      then show ?thesis using n f(7) by auto
    qed
    then have "r = 0" using s f(6) by simp
    then show ?thesis using g by simp
  qed
  have 1: "getInstance (Element 0) relaunched_world = Some 0" by (rule first) simp
  have 2: "getInstance (Id ''btn'') relaunched_world = Some 0" by (rule first) (simp add: f(11))
  have 3: "getInstance (Id ''other'') one_world = None"
    using getInstance_lookup[where elem = None and k = "Id ''other''" and wd = one_world] v by simp
  have 4: "getInstance (Element 1) one_world = None"
    using getInstance_lookup[where elem = "Some 1" and k = "Element 1" and wd = one_world] v by simp
  show ?thesis using f(6,7,9) 1 2 3 4 by (intro conjI)
qed

text \<open>
  C10 as stated fails: after \<^verbatim>\<open>a = statefulBtn(btn)\<close>, \<^verbatim>\<open>a.destroy()\<close> and
  \<^verbatim>\<open>b = statefulBtn(btn)\<close> the registry holds both objects; \<^verbatim>\<open>b\<close> is the initialized
  instance of the button and \<^verbatim>\<open>a\<close> is not initialized, yet \<^verbatim>\<open>getInstance\<close> answers
  \<^verbatim>\<open>a\<close>, for the element and for its id.
\<close>

theorem getInstance_returns_destroyed_instance:
  "call 0 Destroy one_world \<noteq> None \<and> fst (the (call 0 Destroy one_world)) = Inr () \<and>
   statefulBtn 0 None None destroyed_world \<noteq> None \<and>
   fst (the (statefulBtn 0 None None destroyed_world)) = Inr 1 \<and>
   reachable relaunched_world \<and> allInstances relaunched_world = [0, 1] \<and>
   btn (objects relaunched_world 1) = 0 \<and> isInit (objects relaunched_world 1) \<and>
   btn (objects relaunched_world 0) = 0 \<and> \<not> isInit (objects relaunched_world 0) \<and>
   getInstance (Element 0) relaunched_world = Some 0 \<and>
   getInstance (Id ''btn'') relaunched_world = Some 0"
proof -
  note f = relaunched_world_facts
  have 1: "getInstance (Element 0) relaunched_world = Some 0"
    by (simp add: getInstance_def f)
  have 2: "getInstance (Id ''btn'') relaunched_world = Some 0"
    by (simp add: getInstance_def f)
  show ?thesis using f(1-6) f(9,10) f(7,8) 1 2 by (intro conjI)
qed

end
